theory Spec2Isabelle
  imports Main "HOL-Library.AList" "HOL-Library.Multiset"
begin

section \<open>Bloom filter (pkg/query/bloom\_filter.go)\<close>

text \<open>
  The filter owns a bit set of the \<^verbatim>\<open>bits-and-blooms/bitset\<close> library. Of that
  library the filter uses \<^verbatim>\<open>New\<close>, \<^verbatim>\<open>Set\<close> and \<^verbatim>\<open>Test\<close>: a bit set has a length and
  the set of positions that hold a one; \<^verbatim>\<open>Set(i)\<close> grows the length to \<open>i + 1\<close> when
  \<open>i\<close> lies beyond it, \<^verbatim>\<open>Test(i)\<close> answers false beyond the length.
\<close>

record BitSet =
  bs_length :: nat
  bs_ones :: "nat set"

definition bitset_New :: "nat \<Rightarrow> BitSet" where
  "bitset_New n = \<lparr>bs_length = n, bs_ones = {}\<rparr>"

definition bitset_Set :: "BitSet \<Rightarrow> nat \<Rightarrow> BitSet" where
  "bitset_Set b i =
     \<lparr>bs_length = (if i \<ge> bs_length b then i + 1 else bs_length b),
      bs_ones = insert i (bs_ones b)\<rparr>"

definition bitset_Test :: "BitSet \<Rightarrow> nat \<Rightarrow> bool" where
  "bitset_Test b i = (if i \<ge> bs_length b then False else i \<in> bs_ones b)"

text \<open>
  \<^verbatim>\<open>type BloomFilter struct { size int64; bits *bitset.BitSet }\<close>.
  The two hash functions \<^verbatim>\<open>hash.XxHasher\<close> and \<^verbatim>\<open>hash.MurmurHasher\<close> live in a
  package whose source is not part of the sources at hand, so they are parameters:
  each maps the key and the filter size to the bit position \<^verbatim>\<open>uint(h)\<close>.
\<close>

record BloomFilter =
  bf_size :: int
  bf_bits :: BitSet

type_synonym hasher = "int \<Rightarrow> int \<Rightarrow> nat"

definition CreateFilter :: "int \<Rightarrow> BloomFilter" where
  "CreateFilter sz = \<lparr>bf_size = sz, bf_bits = bitset_New (nat sz)\<rparr>"

text \<open>\<^verbatim>\<open>Insert\<close> sets the bits at the two hash values, first \<open>h1\<close>, then \<open>h2\<close>.\<close>

definition Insert :: "hasher \<Rightarrow> hasher \<Rightarrow> BloomFilter \<Rightarrow> int \<Rightarrow> BloomFilter" where
  "Insert XxHasher MurmurHasher flt key =
     (let h1 = XxHasher key (bf_size flt);
          h2 = MurmurHasher key (bf_size flt)
      in flt\<lparr>bf_bits := bitset_Set (bitset_Set (bf_bits flt) h1) h2\<rparr>)"

text \<open>
  \<^verbatim>\<open>Contains\<close> is a method on the pointer to the filter, so the model hands the filter
  back next to the answer: whatever the method did to the filter would show there.
\<close>

definition Contains :: "hasher \<Rightarrow> hasher \<Rightarrow> BloomFilter \<Rightarrow> int \<Rightarrow> bool \<times> BloomFilter" where
  "Contains XxHasher MurmurHasher flt key =
     (let h1 = XxHasher key (bf_size flt);
          h2 = MurmurHasher key (bf_size flt)
      in (bitset_Test (bf_bits flt) h1 \<and> bitset_Test (bf_bits flt) h2, flt))"

text \<open>Any number of later insertions, in the order of the list.\<close>

fun Inserts :: "hasher \<Rightarrow> hasher \<Rightarrow> BloomFilter \<Rightarrow> int list \<Rightarrow> BloomFilter" where
  "Inserts X M flt [] = flt"
| "Inserts X M flt (k # ks) = Inserts X M (Insert X M flt k) ks"

section \<open>Transactions and locks (pkg/concurrency/transaction.go)\<close>

text \<open>
  Keys and values are 64-bit signed integers in the source; no function modelled here does
  arithmetic on them, so they are integers. A client id (a 128-bit uuid) is an opaque
  identifier, here a natural number.
\<close>

type_synonym uuid = nat

datatype LockType = R_LOCK | W_LOCK

text \<open>\<^verbatim>\<open>Resource{tableName, resourceKey}\<close>, compared by both fields.\<close>

datatype Resource = Resource (tableName: string) (resourceKey: int)

text \<open>One constructor for each error the modelled code creates, named after its message.\<close>

datatype error =
    TransactionAlreadyBegan
  | TransactionNotFound
  | NoRightsToResource
  | DeadlockDetected
  | TransactionToUnlockNotFound
  | ResourceToUnlockNotFound
  | LockTypeDoesNotMatch
  | NoTransactionsRunning
  | LockNotHeld
  | TableNotFound
  | TableAlreadyExists
  | KeyAlreadyExists
  | KeyNotFound
  | CanOnlyRedoEditLogs
  | CanOnlyUndoEditLogs
  | IndexOutOfRange
  | EntryIsNonExistent
  | PageNotFound

subsection \<open>The lock manager\<close>

text \<open>
  Modelled from the spec: the lock manager (\<^verbatim>\<open>LockManager\<close>, with \<^verbatim>\<open>Lock\<close> and
  \<^verbatim>\<open>Unlock\<close>) is not among the sources. The spec gives each resource a lock state with
  a mode (none, shared, exclusive) and a shared holder count, materialised on first
  acquisition; \<^verbatim>\<open>Lock\<close> grants an unheld resource, grants shared on shared, and blocks
  otherwise. A blocked call does not return, which is the value \<open>None\<close> here; the
  queue of waiters is therefore not part of the state. The manager is oblivious to
  transactions (the call carries no caller), so the spec's upgrade of a sole shared
  holder cannot be told apart from any other exclusive request and blocks as well.
  \<^verbatim>\<open>Unlock\<close> of a mode the resource is not held in is an error.
\<close>

datatype LockState = Unheld | Shared nat | Exclusive

type_synonym LockManager = "Resource \<Rightarrow> LockState"

definition NewLockManager :: LockManager where
  "NewLockManager = (\<lambda>r. Unheld)"

fun lm_Lock :: "LockManager \<Rightarrow> Resource \<Rightarrow> LockType \<Rightarrow> LockManager option" where
  "lm_Lock lm r R_LOCK =
     (case lm r of
        Unheld \<Rightarrow> Some (lm(r := Shared 1))
      | Shared n \<Rightarrow> Some (lm(r := Shared (n + 1)))
      | Exclusive \<Rightarrow> None)"
| "lm_Lock lm r W_LOCK =
     (case lm r of
        Unheld \<Rightarrow> Some (lm(r := Exclusive))
      | Shared n \<Rightarrow> None
      | Exclusive \<Rightarrow> None)"

fun lm_Unlock :: "LockManager \<Rightarrow> Resource \<Rightarrow> LockType \<Rightarrow> LockManager \<times> error option" where
  "lm_Unlock lm r R_LOCK =
     (case lm r of
        Shared n \<Rightarrow> (lm(r := (if n \<le> 1 then Unheld else Shared (n - 1))), None)
      | Unheld \<Rightarrow> (lm, Some LockNotHeld)
      | Exclusive \<Rightarrow> (lm, Some LockNotHeld))"
| "lm_Unlock lm r W_LOCK =
     (case lm r of
        Exclusive \<Rightarrow> (lm(r := Unheld), None)
      | Unheld \<Rightarrow> (lm, Some LockNotHeld)
      | Shared n \<Rightarrow> (lm, Some LockNotHeld))"

subsection \<open>The waits-for graph\<close>

text \<open>
  Modelled from the spec: the graph (\<^verbatim>\<open>Graph\<close>, with \<^verbatim>\<open>NewGraph\<close>, \<^verbatim>\<open>AddEdge\<close>,
  \<^verbatim>\<open>RemoveEdge\<close> and \<^verbatim>\<open>DetectCycle\<close>) is not among the sources. The spec has a directed
  graph over live transactions to which \<^verbatim>\<open>Lock\<close> adds an edge for each conflicting
  holder and from which it removes the edges it has just added. The model keeps the edges
  in a list, transactions named by their client id: \<^verbatim>\<open>AddEdge\<close> adds one edge,
  \<^verbatim>\<open>RemoveEdge\<close> takes one copy of the edge away (\<^verbatim>\<open>Lock\<close> ignores what it returns),
  and \<^verbatim>\<open>DetectCycle\<close> says whether some transaction reaches itself along the edges.
\<close>

type_synonym Graph = "(uuid \<times> uuid) list"

definition NewGraph :: Graph where
  "NewGraph = []"

definition AddEdge :: "Graph \<Rightarrow> uuid \<Rightarrow> uuid \<Rightarrow> Graph" where
  "AddEdge g from to = g @ [(from, to)]"

definition RemoveEdge :: "Graph \<Rightarrow> uuid \<Rightarrow> uuid \<Rightarrow> Graph" where
  "RemoveEdge g from to = remove1 (from, to) g"

definition DetectCycle :: "Graph \<Rightarrow> bool" where
  "DetectCycle g = (\<exists>v \<in> fst ` set g. (v, v) \<in> (set g)\<^sup>+)"

subsection \<open>The transaction manager\<close>

text \<open>
  \<^verbatim>\<open>type Transaction struct { clientId; resources map[Resource]LockType; lock }\<close>.
  A Go map is an association list with distinct keys here, so that the loops over a map
  (\<^verbatim>\<open>range\<close>) have an order to follow: the order of the list stands for the order Go
  happens to choose. The mutexes are not modelled: every function runs alone.
\<close>

record Transaction =
  clientId :: uuid
  resources :: "(Resource \<times> LockType) list"

record TransactionManager =
  lm :: LockManager
  pGraph :: Graph
  transactions :: "(uuid \<times> Transaction) list"

definition NewTransactionManager :: "LockManager \<Rightarrow> TransactionManager" where
  "NewTransactionManager l = \<lparr>lm = l, pGraph = NewGraph, transactions = []\<rparr>"

definition GetTransaction :: "TransactionManager \<Rightarrow> uuid \<Rightarrow> Transaction option" where
  "GetTransaction tm cid = map_of (transactions tm) cid"

definition Begin :: "TransactionManager \<Rightarrow> uuid \<Rightarrow> TransactionManager \<times> error option" where
  "Begin tm cid =
     (case map_of (transactions tm) cid of
        Some t \<Rightarrow> (tm, Some TransactionAlreadyBegan)
      | None \<Rightarrow>
          (tm\<lparr>transactions :=
                AList.update cid \<lparr>clientId = cid, resources = []\<rparr> (transactions tm)\<rparr>,
           None))"

text \<open>
  \<^verbatim>\<open>discoverTransactions\<close>: every transaction one of whose resources is \<open>r\<close>, held
  for writing or requested for writing.
\<close>

definition discoverTransactions ::
  "TransactionManager \<Rightarrow> Resource \<Rightarrow> LockType \<Rightarrow> Transaction list" where
  "discoverTransactions tm r lType =
     filter
       (\<lambda>t. list_ex (\<lambda>(storedResource, storedType).
                storedResource = r \<and> (storedType = W_LOCK \<or> lType = W_LOCK)) (resources t))
       (map snd (transactions tm))"

definition addEdges :: "Graph \<Rightarrow> uuid \<Rightarrow> Transaction list \<Rightarrow> Graph" where
  "addEdges g cid deps = foldl (\<lambda>g' trans. AddEdge g' cid (clientId trans)) g deps"

definition removeEdges :: "Graph \<Rightarrow> uuid \<Rightarrow> Transaction list \<Rightarrow> Graph" where
  "removeEdges g cid deps = foldl (\<lambda>g' trans. RemoveEdge g' cid (clientId trans)) g deps"

text \<open>
  \<^verbatim>\<open>Lock\<close>. The table is used for its name only. The result \<open>None\<close> is the call that
  never returns: it waits inside the lock manager, after it has added its edges and
  recorded the resource in the transaction.
\<close>

definition Lock ::
  "TransactionManager \<Rightarrow> uuid \<Rightarrow> string \<Rightarrow> int \<Rightarrow> LockType
     \<Rightarrow> (TransactionManager \<times> error option) option" where
  "Lock tm cid tbl key lType =
     (case GetTransaction tm cid of
        None \<Rightarrow> Some (tm, Some TransactionNotFound)
      | Some t \<Rightarrow>
          let resource = Resource tbl key in
          (case map_of (resources t) resource of
             Some lockType \<Rightarrow>
               if lockType = R_LOCK \<and> lType = W_LOCK
               then Some (tm, Some NoRightsToResource)
               else Some (tm, None)
           | None \<Rightarrow>
               let depTransactions = discoverTransactions tm resource lType;
                   g1 = addEdges (pGraph tm) cid depTransactions
               in if DetectCycle g1
                  then Some (tm\<lparr>pGraph := removeEdges g1 cid depTransactions\<rparr>,
                             Some DeadlockDetected)
                  else
                    let t' = t\<lparr>resources := AList.update resource lType (resources t)\<rparr>;
                        ts' = AList.update cid t' (transactions tm)
                    in (case lm_Lock (lm tm) resource lType of
                          None \<Rightarrow> None
                        | Some lm' \<Rightarrow>
                            Some (tm\<lparr>lm := lm',
                                     pGraph := removeEdges g1 cid depTransactions,
                                     transactions := ts'\<rparr>, None))))"

definition Unlock ::
  "TransactionManager \<Rightarrow> uuid \<Rightarrow> string \<Rightarrow> int \<Rightarrow> LockType
     \<Rightarrow> TransactionManager \<times> error option" where
  "Unlock tm cid tbl key lType =
     (case GetTransaction tm cid of
        None \<Rightarrow> (tm, Some TransactionToUnlockNotFound)
      | Some t \<Rightarrow>
          let resource = Resource tbl key in
          (case map_of (resources t) resource of
             None \<Rightarrow> (tm, Some ResourceToUnlockNotFound)
           | Some lockType \<Rightarrow>
               if lockType \<noteq> lType then (tm, Some LockTypeDoesNotMatch)
               else
                 let t' = t\<lparr>resources := AList.delete resource (resources t)\<rparr>;
                     ts' = AList.update cid t' (transactions tm);
                     (lm', err) = lm_Unlock (lm tm) resource lockType
                 in (tm\<lparr>lm := lm', transactions := ts'\<rparr>, err)))"

text \<open>The loop of \<^verbatim>\<open>Commit\<close> over the resources: it stops at the first error.\<close>

fun unlockAll ::
  "LockManager \<Rightarrow> (Resource \<times> LockType) list \<Rightarrow> LockManager \<times> error option" where
  "unlockAll l [] = (l, None)"
| "unlockAll l ((r, lType) # rs) =
     (case lm_Unlock l r lType of
        (l', Some e) \<Rightarrow> (l', Some e)
      | (l', None) \<Rightarrow> unlockAll l' rs)"

definition Commit :: "TransactionManager \<Rightarrow> uuid \<Rightarrow> TransactionManager \<times> error option" where
  "Commit tm cid =
     (case map_of (transactions tm) cid of
        None \<Rightarrow> (tm, Some NoTransactionsRunning)
      | Some t \<Rightarrow>
          (case unlockAll (lm tm) (resources t) of
             (lm', Some e) \<Rightarrow> (tm\<lparr>lm := lm'\<rparr>, Some e)
           | (lm', None) \<Rightarrow>
               (tm\<lparr>lm := lm', transactions := AList.delete cid (transactions tm)\<rparr>, None)))"


section \<open>Recovery (package recovery)\<close>

subsection \<open>The database behind the recovery manager\<close>

text \<open>
  Modelled from the spec: the database facade and its command handlers
  (\<^verbatim>\<open>db.HandleCreateTable\<close>, \<^verbatim>\<open>db.HandleInsert\<close>, \<^verbatim>\<open>db.HandleUpdate\<close>,
  \<^verbatim>\<open>db.HandleDelete\<close>) are not among the sources. By the spec's command surface a
  database owns named tables, each a map from keys to values; \<^verbatim>\<open>insert\<close> is an error
  if the key exists, \<^verbatim>\<open>update\<close> and \<^verbatim>\<open>delete\<close> are errors if the key is absent,
  \<^verbatim>\<open>find\<close> returns the value or absence. The handlers take a command line that the
  recovery manager prints from the fields of a log record; the model passes the fields.
  A failed command leaves the database as it was.
\<close>

type_synonym Table = "int \<rightharpoonup> int"

type_synonym Database = "string \<rightharpoonup> Table"

definition db_HandleCreateTable ::
  "Database \<Rightarrow> string \<Rightarrow> string \<Rightarrow> Database \<times> error option" where
  "db_HandleCreateTable db tblType tblName =
     (case db tblName of
        Some tb \<Rightarrow> (db, Some TableAlreadyExists)
      | None \<Rightarrow> (db(tblName \<mapsto> Map.empty), None))"

definition db_HandleInsert ::
  "Database \<Rightarrow> string \<Rightarrow> int \<Rightarrow> int \<Rightarrow> Database \<times> error option" where
  "db_HandleInsert db tblName k v =
     (case db tblName of
        None \<Rightarrow> (db, Some TableNotFound)
      | Some tb \<Rightarrow>
          (case tb k of
             Some old \<Rightarrow> (db, Some KeyAlreadyExists)
           | None \<Rightarrow> (db(tblName \<mapsto> tb(k \<mapsto> v)), None)))"

definition db_HandleUpdate ::
  "Database \<Rightarrow> string \<Rightarrow> int \<Rightarrow> int \<Rightarrow> Database \<times> error option" where
  "db_HandleUpdate db tblName k v =
     (case db tblName of
        None \<Rightarrow> (db, Some TableNotFound)
      | Some tb \<Rightarrow>
          (case tb k of
             None \<Rightarrow> (db, Some KeyNotFound)
           | Some old \<Rightarrow> (db(tblName \<mapsto> tb(k \<mapsto> v)), None)))"

definition db_HandleDelete ::
  "Database \<Rightarrow> string \<Rightarrow> int \<Rightarrow> Database \<times> error option" where
  "db_HandleDelete db tblName k =
     (case db tblName of
        None \<Rightarrow> (db, Some TableNotFound)
      | Some tb \<Rightarrow>
          (case tb k of
             None \<Rightarrow> (db, Some KeyNotFound)
           | Some old \<Rightarrow> (db(tblName \<mapsto> tb(k := None)), None)))"

definition db_Find :: "Database \<Rightarrow> string \<Rightarrow> int \<Rightarrow> int option" where
  "db_Find db tblName k = (case db tblName of None \<Rightarrow> None | Some tb \<Rightarrow> tb k)"

subsection \<open>Log records and the recovery manager\<close>

datatype Action = INSERT_ACTION | UPDATE_ACTION | DELETE_ACTION

text \<open>
  The five kinds of log record: \<^verbatim>\<open>tableLog{tblType, tblName}\<close>,
  \<^verbatim>\<open>editLog{id, tablename, action, key, oldval, newval}\<close>, \<^verbatim>\<open>startLog{id}\<close>,
  \<^verbatim>\<open>commitLog{id}\<close> and \<^verbatim>\<open>checkpointLog{ids}\<close>.
\<close>

datatype Log =
    tableLog string string
  | editLog uuid string Action int int int
  | startLog uuid
  | commitLog uuid
  | checkpointLog "uuid list"

text \<open>
  \<^verbatim>\<open>type RecoveryManager struct { d; tm; txStack map[uuid.UUID]([]Log); fd; mtx }\<close>.
  The fields \<open>d\<close>, \<open>tm\<close> and \<open>fd\<close> carry the prefix \<open>rm_\<close>. The log file \<open>fd\<close>
  is the list of the records written to it. A stack of \<open>txStack\<close> can hold the nil
  interface (\<^verbatim>\<open>Start\<close> puts one at index 0), so its elements are \<open>Log option\<close>.
\<close>

record RecoveryManager =
  rm_d :: Database
  rm_tm :: TransactionManager
  txStack :: "(uuid \<times> Log option list) list"
  rm_fd :: "Log list"

definition writeToBuffer :: "RecoveryManager \<Rightarrow> Log \<Rightarrow> RecoveryManager" where
  "writeToBuffer rm l = rm\<lparr>rm_fd := rm_fd rm @ [l]\<rparr>"

definition Table :: "RecoveryManager \<Rightarrow> string \<Rightarrow> string \<Rightarrow> RecoveryManager" where
  "Table rm tblType tblName = writeToBuffer rm (tableLog tblType tblName)"

definition Edit ::
  "RecoveryManager \<Rightarrow> uuid \<Rightarrow> string \<Rightarrow> Action \<Rightarrow> int \<Rightarrow> int \<Rightarrow> int \<Rightarrow> RecoveryManager" where
  "Edit rm cid tbl act k oldv newv =
     (let el = editLog cid tbl act k oldv newv;
          rm1 = writeToBuffer rm el;
          stack = (case map_of (txStack rm1) cid of None \<Rightarrow> [] | Some logs \<Rightarrow> logs)
      in rm1\<lparr>txStack := AList.update cid (stack @ [Some el]) (txStack rm1)\<rparr>)"

definition Start :: "RecoveryManager \<Rightarrow> uuid \<Rightarrow> RecoveryManager" where
  "Start rm cid =
     (let sl = startLog cid;
          rm1 = writeToBuffer rm sl
      in rm1\<lparr>txStack := AList.update cid ([None] @ [Some sl]) (txStack rm1)\<rparr>)"

definition rm_Commit :: "RecoveryManager \<Rightarrow> uuid \<Rightarrow> RecoveryManager" where
  "rm_Commit rm cid =
     (let rm1 = writeToBuffer rm (commitLog cid)
      in rm1\<lparr>txStack := AList.delete cid (txStack rm1)\<rparr>)"

text \<open>
  \<^verbatim>\<open>Checkpoint\<close> flushes all pages, writes the checkpoint record with the keys of
  \<open>txStack\<close> and copies the database directory to the recovery directory. The copy is
  the second component of the result.
\<close>

definition Checkpoint :: "RecoveryManager \<Rightarrow> RecoveryManager \<times> Database" where
  "Checkpoint rm =
     (let keys = map fst (txStack rm)
      in (writeToBuffer rm (checkpointLog keys), rm_d rm))"

text \<open>The calls \<^verbatim>\<open>rm.tm.Begin(id)\<close> and \<^verbatim>\<open>rm.tm.Commit(id)\<close> whose error is dropped.\<close>

definition tm_Begin_dropErr :: "RecoveryManager \<Rightarrow> uuid \<Rightarrow> RecoveryManager" where
  "tm_Begin_dropErr rm cid = rm\<lparr>rm_tm := fst (Begin (rm_tm rm) cid)\<rparr>"

definition tm_Commit_dropErr :: "RecoveryManager \<Rightarrow> uuid \<Rightarrow> RecoveryManager" where
  "tm_Commit_dropErr rm cid = rm\<lparr>rm_tm := fst (Commit (rm_tm rm) cid)\<rparr>"

text \<open>\<^verbatim>\<open>Redo\<close>: insert falls back to update, update falls back to insert.\<close>

fun Redo :: "RecoveryManager \<Rightarrow> Log \<Rightarrow> RecoveryManager \<times> error option" where
  "Redo rm (tableLog tblType tblName) =
     (case db_HandleCreateTable (rm_d rm) tblType tblName of
        (d', Some e) \<Rightarrow> (rm\<lparr>rm_d := d'\<rparr>, Some e)
      | (d', None) \<Rightarrow> (rm\<lparr>rm_d := d'\<rparr>, None))"
| "Redo rm (editLog cid tbl INSERT_ACTION k oldv newv) =
     (case db_HandleInsert (rm_d rm) tbl k newv of
        (d', Some e) \<Rightarrow>
          (case db_HandleUpdate d' tbl k newv of
             (d'', Some e') \<Rightarrow> (rm\<lparr>rm_d := d''\<rparr>, Some e')
           | (d'', None) \<Rightarrow> (rm\<lparr>rm_d := d''\<rparr>, None))
      | (d', None) \<Rightarrow> (rm\<lparr>rm_d := d'\<rparr>, None))"
| "Redo rm (editLog cid tbl UPDATE_ACTION k oldv newv) =
     (case db_HandleUpdate (rm_d rm) tbl k newv of
        (d', Some e) \<Rightarrow>
          (case db_HandleInsert d' tbl k newv of
             (d'', Some e') \<Rightarrow> (rm\<lparr>rm_d := d''\<rparr>, Some e')
           | (d'', None) \<Rightarrow> (rm\<lparr>rm_d := d''\<rparr>, None))
      | (d', None) \<Rightarrow> (rm\<lparr>rm_d := d'\<rparr>, None))"
| "Redo rm (editLog cid tbl DELETE_ACTION k oldv newv) =
     (case db_HandleDelete (rm_d rm) tbl k of
        (d', Some e) \<Rightarrow> (rm\<lparr>rm_d := d'\<rparr>, Some e)
      | (d', None) \<Rightarrow> (rm\<lparr>rm_d := d'\<rparr>, None))"
| "Redo rm (startLog cid) = (rm, Some CanOnlyRedoEditLogs)"
| "Redo rm (commitLog cid) = (rm, Some CanOnlyRedoEditLogs)"
| "Redo rm (checkpointLog ids) = (rm, Some CanOnlyRedoEditLogs)"


subsection \<open>The transactional command handlers\<close>

text \<open>
  Modelled from the spec: the handlers \<^verbatim>\<open>HandleInsert\<close>, \<^verbatim>\<open>HandleUpdate\<close> and
  \<^verbatim>\<open>HandleDelete\<close> of the recovery package, which \<^verbatim>\<open>Undo\<close> calls with the database,
  the transaction manager, the recovery manager, a command line and a client id, are not
  among the sources. By the spec's data flow a command (a) acquires the lock on the
  resource through the transaction manager, (b) writes an Edit log through the recovery
  manager, (c) mutates the index; the log record is written before the effect it
  describes. The model takes the write lock on (table, key), returns the error of the
  command surface when the command cannot apply (insert on an existing key, update or
  delete on a missing key), and otherwise writes the edit record (old value 0 for an
  insert, new value 0 for a delete) and applies the command. A handler whose lock request
  waits does not return (\<open>None\<close>).
\<close>

type_synonym rm_result = "(RecoveryManager \<times> error option) option"

definition rec_HandleInsert ::
  "RecoveryManager \<Rightarrow> uuid \<Rightarrow> string \<Rightarrow> int \<Rightarrow> int \<Rightarrow> rm_result" where
  "rec_HandleInsert rm cid tbl k v =
     (case rm_d rm tbl of
        None \<Rightarrow> Some (rm, Some TableNotFound)
      | Some tb \<Rightarrow>
          (case Lock (rm_tm rm) cid tbl k W_LOCK of
             None \<Rightarrow> None
           | Some (tm', Some e) \<Rightarrow> Some (rm\<lparr>rm_tm := tm'\<rparr>, Some e)
           | Some (tm', None) \<Rightarrow>
               (case tb k of
                  Some old \<Rightarrow> Some (rm\<lparr>rm_tm := tm'\<rparr>, Some KeyAlreadyExists)
                | None \<Rightarrow>
                    let rm1 = Edit (rm\<lparr>rm_tm := tm'\<rparr>) cid tbl INSERT_ACTION k 0 v
                    in Some (rm1\<lparr>rm_d := (rm_d rm1)(tbl \<mapsto> tb(k \<mapsto> v))\<rparr>, None))))"

definition rec_HandleUpdate ::
  "RecoveryManager \<Rightarrow> uuid \<Rightarrow> string \<Rightarrow> int \<Rightarrow> int \<Rightarrow> rm_result" where
  "rec_HandleUpdate rm cid tbl k v =
     (case rm_d rm tbl of
        None \<Rightarrow> Some (rm, Some TableNotFound)
      | Some tb \<Rightarrow>
          (case Lock (rm_tm rm) cid tbl k W_LOCK of
             None \<Rightarrow> None
           | Some (tm', Some e) \<Rightarrow> Some (rm\<lparr>rm_tm := tm'\<rparr>, Some e)
           | Some (tm', None) \<Rightarrow>
               (case tb k of
                  None \<Rightarrow> Some (rm\<lparr>rm_tm := tm'\<rparr>, Some KeyNotFound)
                | Some old \<Rightarrow>
                    let rm1 = Edit (rm\<lparr>rm_tm := tm'\<rparr>) cid tbl UPDATE_ACTION k old v
                    in Some (rm1\<lparr>rm_d := (rm_d rm1)(tbl \<mapsto> tb(k \<mapsto> v))\<rparr>, None))))"

definition rec_HandleDelete ::
  "RecoveryManager \<Rightarrow> uuid \<Rightarrow> string \<Rightarrow> int \<Rightarrow> rm_result" where
  "rec_HandleDelete rm cid tbl k =
     (case rm_d rm tbl of
        None \<Rightarrow> Some (rm, Some TableNotFound)
      | Some tb \<Rightarrow>
          (case Lock (rm_tm rm) cid tbl k W_LOCK of
             None \<Rightarrow> None
           | Some (tm', Some e) \<Rightarrow> Some (rm\<lparr>rm_tm := tm'\<rparr>, Some e)
           | Some (tm', None) \<Rightarrow>
               (case tb k of
                  None \<Rightarrow> Some (rm\<lparr>rm_tm := tm'\<rparr>, Some KeyNotFound)
                | Some old \<Rightarrow>
                    let rm1 = Edit (rm\<lparr>rm_tm := tm'\<rparr>) cid tbl DELETE_ACTION k old 0
                    in Some (rm1\<lparr>rm_d := (rm_d rm1)(tbl \<mapsto> tb(k := None))\<rparr>, None))))"

subsection \<open>Undo, Rollback and Recover\<close>

text \<open>\<^verbatim>\<open>Undo\<close>: the inverse command of an edit record, run for the record's transaction.\<close>

fun Undo :: "RecoveryManager \<Rightarrow> Log \<Rightarrow> rm_result" where
  "Undo rm (editLog cid tbl INSERT_ACTION k oldv newv) = rec_HandleDelete rm cid tbl k"
| "Undo rm (editLog cid tbl UPDATE_ACTION k oldv newv) = rec_HandleUpdate rm cid tbl k oldv"
| "Undo rm (editLog cid tbl DELETE_ACTION k oldv newv) = rec_HandleInsert rm cid tbl k oldv"
| "Undo rm (tableLog tblType tblName) = Some (rm, Some CanOnlyUndoEditLogs)"
| "Undo rm (startLog cid) = Some (rm, Some CanOnlyUndoEditLogs)"
| "Undo rm (commitLog cid) = Some (rm, Some CanOnlyUndoEditLogs)"
| "Undo rm (checkpointLog ids) = Some (rm, Some CanOnlyUndoEditLogs)"

text \<open>
  The loop of \<^verbatim>\<open>Rollback\<close>, \<^verbatim>\<open>for i := len(logs) - 1; i >= 1; i--\<close>, over the slice it
  read from \<open>txStack\<close> before the loop: the argument is \<open>i\<close>, and \<open>i = 0\<close> ends the
  loop without a look at \<open>logs[0]\<close>. An element that is not an edit record (a start
  record, the nil interface) is skipped.
\<close>

fun rollbackLoop :: "RecoveryManager \<Rightarrow> Log option list \<Rightarrow> nat \<Rightarrow> rm_result" where
  "rollbackLoop rm logs 0 = Some (rm, None)"
| "rollbackLoop rm logs (Suc n) =
     (case logs ! Suc n of
        Some (editLog cid tbl act k oldv newv) \<Rightarrow>
          (case Undo rm (editLog cid tbl act k oldv newv) of
             None \<Rightarrow> None
           | Some (rm', Some e) \<Rightarrow> Some (rm', Some e)
           | Some (rm', None) \<Rightarrow> rollbackLoop rm' logs n)
      | _ \<Rightarrow> rollbackLoop rm logs n)"

definition Rollback :: "RecoveryManager \<Rightarrow> uuid \<Rightarrow> rm_result" where
  "Rollback rm cid =
     (case map_of (txStack rm) cid of
        None \<Rightarrow> Some (rm, Some TransactionNotFound)
      | Some logs \<Rightarrow>
          (case rollbackLoop rm logs (length logs - 1) of
             None \<Rightarrow> None
           | Some (rm', Some e) \<Rightarrow> Some (rm', Some e)
           | Some (rm', None) \<Rightarrow> Some (tm_Commit_dropErr (rm_Commit rm' cid) cid, None)))"

text \<open>
  Modelled from the spec: \<^verbatim>\<open>readLogs\<close>, which gives \<^verbatim>\<open>Recover\<close> the records of the log
  and \<^verbatim>\<open>checkpointPos\<close>, is not among the sources. By the spec, recovery parses all
  records in order and locates the last checkpoint; \<^verbatim>\<open>Recover\<close>'s own comment has it
  seek backwards through the log to the most recent checkpoint. The position is that of
  the last checkpoint record, and 0 when the log has none.
\<close>

fun seekCheckpoint :: "Log list \<Rightarrow> nat \<Rightarrow> nat" where
  "seekCheckpoint logs 0 = 0"
| "seekCheckpoint logs (Suc i) =
     (case logs ! Suc i of
        checkpointLog ids \<Rightarrow> Suc i
      | _ \<Rightarrow> seekCheckpoint logs i)"

definition readLogs_checkpointPos :: "Log list \<Rightarrow> nat" where
  "readLogs_checkpointPos logs = seekCheckpoint logs (length logs - 1)"

text \<open>
  \<^verbatim>\<open>Recover\<close>, in its three parts. The set of active transactions is \<^verbatim>\<open>activeTxs\<close>.
  First the transactions named by the record at \<^verbatim>\<open>checkpointPos\<close>, if that is a
  checkpoint record, are begun and made active.
\<close>

fun seedActive :: "RecoveryManager \<Rightarrow> Log \<Rightarrow> RecoveryManager \<times> uuid set" where
  "seedActive rm (checkpointLog ids) =
     foldl (\<lambda>(rm', activeTxs) cid. (tm_Begin_dropErr rm' cid, insert cid activeTxs)) (rm, {}) ids"
| "seedActive rm (tableLog tblType tblName) = (rm, {})"
| "seedActive rm (editLog cid tbl act k oldv newv) = (rm, {})"
| "seedActive rm (startLog cid) = (rm, {})"
| "seedActive rm (commitLog cid) = (rm, {})"

text \<open>
  The redo part, one record of \<^verbatim>\<open>for i := checkpointPos; i < len(logs); i++\<close>. The
  error of \<^verbatim>\<open>Redo\<close> is dropped.
\<close>

fun redoStep :: "RecoveryManager \<times> uuid set \<Rightarrow> Log \<Rightarrow> RecoveryManager \<times> uuid set" where
  "redoStep (rm, activeTxs) (tableLog tblType tblName) =
     (fst (Redo rm (tableLog tblType tblName)), activeTxs)"
| "redoStep (rm, activeTxs) (editLog cid tbl act k oldv newv) =
     (fst (Redo rm (editLog cid tbl act k oldv newv)), activeTxs)"
| "redoStep (rm, activeTxs) (startLog cid) =
     (tm_Begin_dropErr rm cid, insert cid activeTxs)"
| "redoStep (rm, activeTxs) (commitLog cid) =
     (tm_Commit_dropErr (rm_Commit rm cid) cid, activeTxs - {cid})"
| "redoStep (rm, activeTxs) (checkpointLog ids) = (rm, activeTxs)"

text \<open>
  The undo part, \<^verbatim>\<open>for i := len(logs) - 1; i >= 0; i--\<close>: the argument is \<open>i + 1\<close>,
  the number of records still to visit. The error of \<^verbatim>\<open>Undo\<close> is dropped; an
  \<^verbatim>\<open>Undo\<close> that does not return stops the recovery.
\<close>

fun undoLoop :: "uuid set \<Rightarrow> Log list \<Rightarrow> RecoveryManager \<Rightarrow> nat \<Rightarrow> RecoveryManager option" where
  "undoLoop activeTxs logs rm 0 = Some rm"
| "undoLoop activeTxs logs rm (Suc i) =
     (case logs ! i of
        editLog cid tbl act k oldv newv \<Rightarrow>
          if cid \<in> activeTxs
          then (case Undo rm (editLog cid tbl act k oldv newv) of
                  None \<Rightarrow> None
                | Some (rm', err) \<Rightarrow> undoLoop activeTxs logs rm' i)
          else undoLoop activeTxs logs rm i
      | startLog cid \<Rightarrow>
          if cid \<in> activeTxs
          then undoLoop activeTxs logs (tm_Commit_dropErr (rm_Commit rm cid) cid) i
          else undoLoop activeTxs logs rm i
      | _ \<Rightarrow> undoLoop activeTxs logs rm i)"

text \<open>
  \<^verbatim>\<open>Recover\<close> on the records and the position that \<^verbatim>\<open>readLogs\<close> returned. Reading
  \<^verbatim>\<open>logs[checkpointPos]\<close> beyond the end of the slice panics, which is the error
  \<open>IndexOutOfRange\<close> here.
\<close>

definition Recover :: "RecoveryManager \<Rightarrow> Log list \<Rightarrow> nat \<Rightarrow> rm_result" where
  "Recover rm logs checkpointPos =
     (if checkpointPos \<ge> length logs then Some (rm, Some IndexOutOfRange)
      else
        let (rm1, seeded) = seedActive rm (logs ! checkpointPos);
            (rm2, activeTxs) = foldl redoStep (rm1, seeded) (drop checkpointPos logs)
        in (case undoLoop activeTxs logs rm2 (length logs) of
              None \<Rightarrow> None
            | Some rm3 \<Rightarrow> Some (rm3, None)))"

text \<open>
  \<^verbatim>\<open>Prime\<close> opens the database for recovery: when the recovery directory exists, its
  copy (taken by the last checkpoint) replaces the database directory.
\<close>

definition Prime :: "Database option \<Rightarrow> Database \<Rightarrow> Database" where
  "Prime recoveryFolder dbFolder =
     (case recoveryFolder of None \<Rightarrow> dbFolder | Some snapshot \<Rightarrow> snapshot)"


subsection \<open>Rollback in the words of its description\<close>

text \<open>
  The description of \<^verbatim>\<open>Rollback\<close> to compare the code with: take the edit records of
  the transaction's stack, walk them from the newest to the oldest and apply the inverse
  of each (an insert is undone by deleting the key, an update by restoring the old value,
  a delete by inserting the key again with the old value), then commit the transaction in
  the recovery manager and in the transaction manager. An inverse that fails ends the walk
  with its error.
\<close>

fun editLogsOf :: "Log option list \<Rightarrow> Log list" where
  "editLogsOf [] = []"
| "editLogsOf (Some (editLog cid tbl act k oldv newv) # ls) =
     editLog cid tbl act k oldv newv # editLogsOf ls"
| "editLogsOf (l # ls) = editLogsOf ls"

fun inverseOf :: "RecoveryManager \<Rightarrow> Log \<Rightarrow> rm_result" where
  "inverseOf rm (editLog cid tbl act k oldv newv) =
     (case act of
        INSERT_ACTION \<Rightarrow> rec_HandleDelete rm cid tbl k
      | UPDATE_ACTION \<Rightarrow> rec_HandleUpdate rm cid tbl k oldv
      | DELETE_ACTION \<Rightarrow> rec_HandleInsert rm cid tbl k oldv)"
| "inverseOf rm l = Some (rm, Some CanOnlyUndoEditLogs)"

fun applyInverses :: "RecoveryManager \<Rightarrow> Log list \<Rightarrow> rm_result" where
  "applyInverses rm [] = Some (rm, None)"
| "applyInverses rm (l # ls) =
     (case inverseOf rm l of
        None \<Rightarrow> None
      | Some (rm', Some e) \<Rightarrow> Some (rm', Some e)
      | Some (rm', None) \<Rightarrow> applyInverses rm' ls)"

text \<open>
  The walk and the commit over a given list of records, so that the description can be
  read over the whole stack and over a part of it.
\<close>

definition walkAndCommit :: "RecoveryManager \<Rightarrow> uuid \<Rightarrow> Log option list \<Rightarrow> rm_result" where
  "walkAndCommit rm cid records =
     (case applyInverses rm (rev (editLogsOf records)) of
        None \<Rightarrow> None
      | Some (rm', Some e) \<Rightarrow> Some (rm', Some e)
      | Some (rm', None) \<Rightarrow>
          Some (rm'\<lparr>rm_fd := rm_fd rm' @ [commitLog cid],
                    txStack := AList.delete cid (txStack rm'),
                    rm_tm := fst (Commit (rm_tm rm') cid)\<rparr>, None))"

definition Rollback_described :: "RecoveryManager \<Rightarrow> uuid \<Rightarrow> rm_result" where
  "Rollback_described rm cid =
     (case map_of (txStack rm) cid of
        None \<Rightarrow> Some (rm, Some TransactionNotFound)
      | Some stack \<Rightarrow> walkAndCommit rm cid stack)"

subsection \<open>A process that crashes after insert, checkpoint, insert\<close>

text \<open>
  The run of the scenario: a table is created, transaction \<open>T\<close> begins, inserts
  \<open>(k1, v1)\<close>, a checkpoint is taken, \<open>T\<close> inserts \<open>(k2, v2)\<close>, and the process is
  killed. What survives is the log file and the copy of the database that the checkpoint
  made. Creating the table writes its table record and creates it in the database;
  beginning a transaction begins it in the transaction manager and writes its start
  record.
\<close>

definition NewRecoveryManager :: "Database \<Rightarrow> Log list \<Rightarrow> RecoveryManager" where
  "NewRecoveryManager db logFile =
     \<lparr>rm_d = db, rm_tm = NewTransactionManager NewLockManager, txStack = [], rm_fd = logFile\<rparr>"

definition crashAfterCheckpoint ::
  "uuid \<Rightarrow> string \<Rightarrow> int \<Rightarrow> int \<Rightarrow> int \<Rightarrow> int \<Rightarrow> (Log list \<times> Database) option" where
  "crashAfterCheckpoint T tbl k1 v1 k2 v2 =
     (let rm0 = NewRecoveryManager Map.empty [];
          rm1 = Table rm0 ''btree'' tbl;
          rm2 = rm1\<lparr>rm_d := fst (db_HandleCreateTable (rm_d rm1) ''btree'' tbl)\<rparr>;
          rm3 = Start (tm_Begin_dropErr rm2 T) T
      in (case rec_HandleInsert rm3 T tbl k1 v1 of
            Some (rm4, None) \<Rightarrow>
              (let (rm5, snapshot) = Checkpoint rm4
               in (case rec_HandleInsert rm5 T tbl k2 v2 of
                     Some (rm6, None) \<Rightarrow> Some (rm_fd rm6, snapshot)
                   | _ \<Rightarrow> None))
          | _ \<Rightarrow> None))"

text \<open>
  The restart: \<^verbatim>\<open>Prime\<close> restores the copy, a new recovery manager opens the log,
  and \<^verbatim>\<open>Recover\<close> runs on the records and the position of the last checkpoint.
\<close>

definition restart :: "Log list \<Rightarrow> Database \<Rightarrow> Database \<Rightarrow> rm_result" where
  "restart logFile snapshot dbFolder =
     Recover (NewRecoveryManager (Prime (Some snapshot) dbFolder) logFile)
       logFile (readLogs_checkpointPos logFile)"


section \<open>B+-tree cursors (package btree)\<close>

text \<open>
  An entry is a pair of a key and a value. A leaf node is a page: the header's
  \<^verbatim>\<open>numKeys\<close>, the right sibling's page number (negative at the rightmost leaf) and the
  cell slots of the page. \<^verbatim>\<open>getEntry(cellnum)\<close> reads the slot whatever \<^verbatim>\<open>numKeys\<close>
  says, so the slots are a total function of the cell number; the slots from \<open>0\<close> to
  \<open>numKeys - 1\<close> hold the entries of the node.
\<close>

type_synonym Entry = "int \<times> int"

record LeafNode =
  numKeys :: int
  rightSiblingPN :: int
  getEntry :: "int \<Rightarrow> Entry"

text \<open>
  Of the index the cursor functions use the pager, to read the page of a right sibling
  and see it as a leaf node. The pager is the map from page numbers to the leaf nodes
  stored there; reading any other page number fails (\<^verbatim>\<open>GetPage\<close> returns an error).
\<close>

record BTreeIndex =
  pager :: "int \<rightharpoonup> LeafNode"
  rootPN :: int

definition GetPage :: "BTreeIndex \<Rightarrow> int \<Rightarrow> LeafNode option" where
  "GetPage tbl pn = pager tbl pn"

text \<open>
  \<^verbatim>\<open>type BTreeCursor struct { table; cellnum; isEnd; curNode; mu }\<close>. The table is an
  argument of the functions that need it. The page latches are not modelled.
\<close>

record BTreeCursor =
  cellnum :: int
  isEnd :: bool
  curNode :: LeafNode

text \<open>
  \<^verbatim>\<open>StepForward\<close> returns the cursor as it leaves it and \<^verbatim>\<open>atEnd\<close>. It calls itself
  when the next node is empty, and nothing in the code bounds the number of empty nodes
  in a row: the first argument is the number of calls allowed, and \<open>None\<close> is the
  call that has not returned within them.
\<close>

fun StepForward :: "nat \<Rightarrow> BTreeIndex \<Rightarrow> BTreeCursor \<Rightarrow> (BTreeCursor \<times> bool) option" where
  "StepForward 0 tbl cursor = None"
| "StepForward (Suc fuel) tbl cursor =
     (if cellnum cursor + 1 \<ge> numKeys (curNode cursor) then
        (let nextPN = rightSiblingPN (curNode cursor) in
         if nextPN < 0 then Some (cursor, True)
         else
           (case GetPage tbl nextPN of
              None \<Rightarrow> Some (cursor, True)
            | Some nextNode \<Rightarrow>
                (let cursor' = cursor\<lparr>cellnum := 0, curNode := nextNode\<rparr>
                 in if cellnum cursor' = numKeys nextNode
                    then StepForward fuel tbl cursor'
                    else Some (cursor', False))))
      else Some (cursor\<lparr>cellnum := cellnum cursor + 1\<rparr>, False))"

definition IsEnd :: "BTreeCursor \<Rightarrow> bool" where
  "IsEnd cursor = isEnd cursor"

definition GetEntry :: "BTreeCursor \<Rightarrow> error + Entry" where
  "GetEntry cursor =
     (if isEnd cursor then Inl EntryIsNonExistent
      else Inr (getEntry (curNode cursor) (cellnum cursor)))"

text \<open>
  \<^verbatim>\<open>TableFind\<close> reads the root page and asks \<^verbatim>\<open>keyToNodeEntry\<close> for the leaf and the
  cell number the key belongs to. The nodes' \<^verbatim>\<open>keyToNodeEntry\<close> is not among the
  sources: it is a parameter, the function from the key to the leaf and cell number found
  from the root, or to the error of the descent or of reading the root page.
\<close>

type_synonym keyToNodeEntry = "int \<Rightarrow> error + (LeafNode \<times> int)"

definition TableFind :: "keyToNodeEntry \<Rightarrow> int \<Rightarrow> error + BTreeCursor" where
  "TableFind descend key =
     (case descend key of
        Inl err \<Rightarrow> Inl err
      | Inr (leaf, cell) \<Rightarrow>
          Inr \<lparr>cellnum = cell, isEnd = (cell = numKeys leaf), curNode = leaf\<rparr>)"

text \<open>
  The loop of \<^verbatim>\<open>TableFindRange\<close>. It need not end (the cursor can stay where it is),
  so it has fuel as well: the number of passes allowed, which also bounds the calls of
  each \<^verbatim>\<open>StepForward\<close>. The result is the slice of entries and the error returned.
\<close>

fun rangeLoop ::
  "nat \<Rightarrow> BTreeIndex \<Rightarrow> int \<Rightarrow> BTreeCursor \<Rightarrow> Entry \<Rightarrow> Entry list
     \<Rightarrow> (Entry list \<times> error option) option" where
  "rangeLoop 0 tbl endKey cursor curEntry entries = None"
| "rangeLoop (Suc fuel) tbl endKey cursor curEntry entries =
     (if endKey > fst curEntry \<and> \<not> IsEnd cursor then
        (let entries' = entries @ [curEntry] in
         case StepForward (Suc fuel) tbl cursor of
           None \<Rightarrow> None
         | Some (cursor', atEnd) \<Rightarrow>
             (case GetEntry cursor' of
                Inl err \<Rightarrow> Some (entries', Some err)
              | Inr curEntry' \<Rightarrow> rangeLoop fuel tbl endKey cursor' curEntry' entries'))
      else Some (entries, None))"

definition TableFindRange ::
  "keyToNodeEntry \<Rightarrow> nat \<Rightarrow> BTreeIndex \<Rightarrow> int \<Rightarrow> int
     \<Rightarrow> (Entry list \<times> error option) option" where
  "TableFindRange descend fuel tbl startKey endKey =
     (case TableFind descend startKey of
        Inl err \<Rightarrow> Some ([], Some err)
      | Inr cursor \<Rightarrow>
          (case GetEntry cursor of
             Inl err \<Rightarrow> Some ([], Some err)
           | Inr curEntry \<Rightarrow> rangeLoop fuel tbl endKey cursor curEntry []))"

text \<open>
  The entries at and after a position of the leaf chain, for the statements about
  \<^verbatim>\<open>TableFindRange\<close>: the cells from \<open>cell\<close> on in the leaf, then the cells of the
  leaves that follow, as far as \<open>n\<close> sibling links lead.
\<close>

fun entriesFrom :: "nat \<Rightarrow> BTreeIndex \<Rightarrow> LeafNode \<Rightarrow> int \<Rightarrow> Entry list" where
  "entriesFrom 0 tbl leaf cell = map (getEntry leaf) [cell..numKeys leaf - 1]"
| "entriesFrom (Suc n) tbl leaf cell =
     map (getEntry leaf) [cell..numKeys leaf - 1] @
     (if rightSiblingPN leaf < 0 then []
      else (case GetPage tbl (rightSiblingPN leaf) of
              None \<Rightarrow> []
            | Some nextNode \<Rightarrow> entriesFrom n tbl nextNode 0))"


text \<open>
  Three notions for the proofs: the set of all entries at and after a position; a cursor
  that rests on a cell of its node; and a cursor from which \<^verbatim>\<open>StepForward\<close> finds no
  further node (it is at or beyond the last cell of a leaf whose right sibling is absent
  or cannot be read).
\<close>

definition atOrAfter :: "BTreeIndex \<Rightarrow> LeafNode \<Rightarrow> int \<Rightarrow> Entry set" where
  "atOrAfter tbl leaf cell = (\<Union>n. set (entriesFrom n tbl leaf cell))"

definition onCell :: "BTreeCursor \<Rightarrow> bool" where
  "onCell cursor = (0 \<le> cellnum cursor \<and> cellnum cursor < numKeys (curNode cursor))"

definition lastPosition :: "BTreeIndex \<Rightarrow> BTreeCursor \<Rightarrow> bool" where
  "lastPosition tbl cursor =
     (cellnum cursor + 1 \<ge> numKeys (curNode cursor)
      \<and> (rightSiblingPN (curNode cursor) < 0
         \<or> GetPage tbl (rightSiblingPN (curNode cursor)) = None))"


section \<open>Grace hash join (pkg/query, Join)\<close>

text \<open>
  Modelled from the spec: the extendible hash table of the hash package (\<^verbatim>\<open>GetDepth\<close>,
  \<^verbatim>\<open>GetBuckets\<close>, \<^verbatim>\<open>ExtendTable\<close>, \<^verbatim>\<open>GetBucketByPN\<close>) is not among the sources. By the
  spec a table has a global depth and a directory of bucket page numbers, and
  \<^verbatim>\<open>ExtendTable\<close> doubles the directory without splitting any bucket: it duplicates
  every slot and increments the global depth.
\<close>

record HashTable =
  depth :: int
  buckets :: "int list"

definition GetDepth :: "HashTable \<Rightarrow> int" where
  "GetDepth t = depth t"

definition GetBuckets :: "HashTable \<Rightarrow> int list" where
  "GetBuckets t = buckets t"

definition ExtendTable :: "HashTable \<Rightarrow> HashTable" where
  "ExtendTable t = t\<lparr>depth := depth t + 1, buckets := buckets t @ buckets t\<rparr>"

text \<open>
  The loop of \<^verbatim>\<open>Join\<close> that makes both hash tables the same global size:
  \<^verbatim>\<open>for leftHashTable.GetDepth() != rightHashTable.GetDepth() { ... }\<close>.
\<close>

function equaliseDepths :: "HashTable \<Rightarrow> HashTable \<Rightarrow> HashTable \<times> HashTable" where
  "equaliseDepths leftHashTable rightHashTable =
     (if GetDepth leftHashTable \<noteq> GetDepth rightHashTable then
        (if GetDepth leftHashTable < GetDepth rightHashTable
         then equaliseDepths (ExtendTable leftHashTable) rightHashTable
         else equaliseDepths leftHashTable (ExtendTable rightHashTable))
      else (leftHashTable, rightHashTable))"
  by pat_completeness auto
termination
  by (relation "measure (\<lambda>(l, r). nat \<bar>depth l - depth r\<bar>)")
     (auto simp: GetDepth_def ExtendTable_def)

declare equaliseDepths.simps [simp del]

text \<open>
  The probe loop, \<^verbatim>\<open>for i, lBucketPN := range leftBuckets\<close>: the arguments are the left
  slots still to visit, the index \<open>i\<close> of the first of them, the pairs seen and the
  pairs handed to \<^verbatim>\<open>probeBuckets\<close> so far, in the order of the calls of \<^verbatim>\<open>group.Go\<close>
  (the probes themselves run concurrently and are not modelled). Reading
  \<^verbatim>\<open>rightBuckets[i]\<close> beyond the slice panics, which is the error \<open>IndexOutOfRange\<close>.
  Whether \<^verbatim>\<open>GetBucketByPN\<close> can read a bucket page is a parameter for each side.
\<close>

fun probeLoop ::
  "(int \<Rightarrow> bool) \<Rightarrow> (int \<Rightarrow> bool) \<Rightarrow> int list \<Rightarrow> int list \<Rightarrow> nat
     \<Rightarrow> (int \<times> int) list \<Rightarrow> (int \<times> int) list \<Rightarrow> (int \<times> int) list \<times> error option" where
  "probeLoop leftHas rightHas rightBuckets [] i seenList probed = (probed, None)"
| "probeLoop leftHas rightHas rightBuckets (lBucketPN # rest) i seenList probed =
     (if i \<ge> length rightBuckets then (probed, Some IndexOutOfRange)
      else
        (let rBucketPN = rightBuckets ! i;
             bucketPair = (lBucketPN, rBucketPN)
         in if bucketPair \<in> set seenList
            then probeLoop leftHas rightHas rightBuckets rest (i + 1) seenList probed
            else if \<not> leftHas lBucketPN then (probed, Some PageNotFound)
            else if \<not> rightHas rBucketPN then (probed, Some PageNotFound)
            else probeLoop leftHas rightHas rightBuckets rest (i + 1)
                   (bucketPair # seenList) (probed @ [bucketPair])))"

text \<open>
  \<^verbatim>\<open>Join\<close> from the point where \<^verbatim>\<open>buildHashIndex\<close> has built the two temporary hash
  tables (it fills them through the hash package): the two tables after the
  equalisation, the pairs of bucket page numbers probed, and the error.
\<close>

definition Join ::
  "(int \<Rightarrow> bool) \<Rightarrow> (int \<Rightarrow> bool) \<Rightarrow> HashTable \<Rightarrow> HashTable
     \<Rightarrow> HashTable \<times> HashTable \<times> (int \<times> int) list \<times> error option" where
  "Join leftHas rightHas leftHashTable rightHashTable =
     (let (l, r) = equaliseDepths leftHashTable rightHashTable;
          (probed, err) = probeLoop leftHas rightHas (GetBuckets r) (GetBuckets l) 0 [] []
      in (l, r, probed, err))"


section \<open>Properties of the bloom filter\<close>

lemma Insert_size: "bf_size (Insert X M f k) = bf_size f"
  by (simp add: Insert_def Let_def)

lemma Inserts_size: "bf_size (Inserts X M f ks) = bf_size f"
  by (induction ks arbitrary: f) (simp_all add: Insert_size)

lemma bitset_Test_Set_same: "bitset_Test (bitset_Set b i) i"
  by (simp add: bitset_Test_def bitset_Set_def)

lemma bitset_Test_Set_mono: "bitset_Test b i \<Longrightarrow> bitset_Test (bitset_Set b j) i"
  by (auto simp: bitset_Test_def bitset_Set_def split: if_splits)

lemma Insert_keeps_bits:
  "bitset_Test (bf_bits f) i \<Longrightarrow> bitset_Test (bf_bits (Insert X M f k)) i"
  by (simp add: Insert_def Let_def bitset_Test_Set_mono)

lemma Inserts_keeps_bits:
  "bitset_Test (bf_bits f) i \<Longrightarrow> bitset_Test (bf_bits (Inserts X M f ks)) i"
  by (induction ks arbitrary: f) (simp_all add: Insert_keeps_bits)

lemma Insert_sets_both:
  "bitset_Test (bf_bits (Insert X M f k)) (X k (bf_size f))"
  "bitset_Test (bf_bits (Insert X M f k)) (M k (bf_size f))"
  by (simp_all add: Insert_def Let_def bitset_Test_Set_same bitset_Test_Set_mono)

text \<open>
  Claim C10. After \<^verbatim>\<open>Insert(key)\<close>, and after any further insertions into the same
  filter, \<^verbatim>\<open>Contains(key)\<close> answers true: the filter has no false negatives. And
  \<^verbatim>\<open>Contains\<close> leaves the filter as it found it.
\<close>

theorem Contains_after_Insert:
  "fst (Contains X M (Inserts X M (Insert X M f key) ks) key) = True
   \<and> snd (Contains X M g key') = g"
proof -
  let ?f' = "Inserts X M (Insert X M f key) ks"
  have sz: "bf_size ?f' = bf_size f"
    by (simp add: Inserts_size Insert_size)
  have "bitset_Test (bf_bits ?f') (X key (bf_size f))"
    by (rule Inserts_keeps_bits) (rule Insert_sets_both)
  moreover have "bitset_Test (bf_bits ?f') (M key (bf_size f))"
    by (rule Inserts_keeps_bits) (rule Insert_sets_both)
  ultimately have "fst (Contains X M ?f' key)"
    by (simp add: Contains_def Let_def sz)
  moreover have "snd (Contains X M g key') = g"
    by (simp add: Contains_def Let_def)
  ultimately show ?thesis by simp
qed

section \<open>Properties of the transaction manager\<close>

text \<open>
  Claim C8. \<^verbatim>\<open>Unlock\<close> of a resource that the transaction does not hold, or holds in
  another mode than the one named, returns an error and leaves the transaction manager
  (the resource maps of its transactions, its lock manager, its graph) as it was. The
  same holds when there is no such transaction at all.
\<close>

theorem Unlock_not_held_is_error:
  assumes "\<forall>t. GetTransaction tm cid = Some t
             \<longrightarrow> map_of (resources t) (Resource tbl key) \<noteq> Some lType"
  shows "Unlock tm cid tbl key lType =
           (tm, Some (case GetTransaction tm cid of
                        None \<Rightarrow> TransactionToUnlockNotFound
                      | Some t \<Rightarrow>
                          (case map_of (resources t) (Resource tbl key) of
                             None \<Rightarrow> ResourceToUnlockNotFound
                           | Some held \<Rightarrow> LockTypeDoesNotMatch)))"
  using assms by (auto simp: Unlock_def Let_def split: option.splits)

theorem Unlock_not_held_is_error_witness:
  "Unlock \<lparr>lm = NewLockManager(Resource ''t'' 5 := Shared 1), pGraph = [],
           transactions = [(1, \<lparr>clientId = 1, resources = [(Resource ''t'' 5, R_LOCK)]\<rparr>)]\<rparr>
     1 ''t'' 5 W_LOCK =
   (\<lparr>lm = NewLockManager(Resource ''t'' 5 := Shared 1), pGraph = [],
     transactions = [(1, \<lparr>clientId = 1, resources = [(Resource ''t'' 5, R_LOCK)]\<rparr>)]\<rparr>,
    Some LockTypeDoesNotMatch)"
  using Unlock_not_held_is_error
    [of "\<lparr>lm = NewLockManager(Resource ''t'' 5 := Shared 1), pGraph = [],
          transactions = [(1, \<lparr>clientId = 1, resources = [(Resource ''t'' 5, R_LOCK)]\<rparr>)]\<rparr>"
        1 "''t''" 5 W_LOCK]
  by (simp add: GetTransaction_def)

text \<open>
  Claim C2, as stated: a transaction that holds a resource in shared mode and is its only
  holder is granted the same resource in exclusive mode. The code refuses: with the one
  transaction 1 holding \<open>(t, 5)\<close> for reading, its request for writing returns the error
  "transaction does not have rights to the resource".
\<close>

theorem Lock_upgrade_sole_reader_counterexample:
  "map fst (transactions
     \<lparr>lm = NewLockManager(Resource ''t'' 5 := Shared 1), pGraph = [],
      transactions = [(1, \<lparr>clientId = 1, resources = [(Resource ''t'' 5, R_LOCK)]\<rparr>)]\<rparr>)
     = [1]
   \<and> Lock \<lparr>lm = NewLockManager(Resource ''t'' 5 := Shared 1), pGraph = [],
           transactions = [(1, \<lparr>clientId = 1, resources = [(Resource ''t'' 5, R_LOCK)]\<rparr>)]\<rparr>
        1 ''t'' 5 W_LOCK
      = Some (\<lparr>lm = NewLockManager(Resource ''t'' 5 := Shared 1), pGraph = [],
               transactions = [(1, \<lparr>clientId = 1, resources = [(Resource ''t'' 5, R_LOCK)]\<rparr>)]\<rparr>,
              Some NoRightsToResource)"
  by (simp add: Lock_def Let_def GetTransaction_def discoverTransactions_def)

text \<open>
  Claim C2, amended. When the transaction already holds the resource, \<^verbatim>\<open>Lock\<close> returns
  at once and changes no state: with an error when the resource is held for reading and
  requested for writing (whoever else holds it), with success in every other case
  (the same mode again, or reading requested while holding it for writing).
\<close>

theorem Lock_already_held:
  assumes "GetTransaction tm cid = Some t"
    and "map_of (resources t) (Resource tbl key) = Some held"
  shows "Lock tm cid tbl key lType =
           Some (tm, if held = R_LOCK \<and> lType = W_LOCK then Some NoRightsToResource else None)"
  using assms by (simp add: Lock_def Let_def)

theorem Lock_already_held_witness:
  "Lock \<lparr>lm = NewLockManager(Resource ''t'' 5 := Shared 1), pGraph = [],
         transactions = [(1, \<lparr>clientId = 1, resources = [(Resource ''t'' 5, R_LOCK)]\<rparr>)]\<rparr>
     1 ''t'' 5 R_LOCK
   = Some (\<lparr>lm = NewLockManager(Resource ''t'' 5 := Shared 1), pGraph = [],
            transactions = [(1, \<lparr>clientId = 1, resources = [(Resource ''t'' 5, R_LOCK)]\<rparr>)]\<rparr>,
           None)"
  using Lock_already_held
    [of "\<lparr>lm = NewLockManager(Resource ''t'' 5 := Shared 1), pGraph = [],
          transactions = [(1, \<lparr>clientId = 1, resources = [(Resource ''t'' 5, R_LOCK)]\<rparr>)]\<rparr>"
        1 "\<lparr>clientId = 1, resources = [(Resource ''t'' 5, R_LOCK)]\<rparr>" "''t''" 5 R_LOCK R_LOCK]
  by (simp add: GetTransaction_def)

lemma addEdges_eq: "addEdges g cid deps = g @ map (\<lambda>t. (cid, clientId t)) deps"
  unfolding addEdges_def
  by (induction deps arbitrary: g) (simp_all add: AddEdge_def)

lemma mset_removeEdges:
  "mset (removeEdges g cid deps) = mset g - mset (map (\<lambda>t. (cid, clientId t)) deps)"
  unfolding removeEdges_def
proof (induction deps arbitrary: g)
  case Nil
  then show ?case by simp
next
  case (Cons d ds)
  have "mset (remove1 (cid, clientId d) g) = mset g - {#(cid, clientId d)#}"
    by simp
  with Cons show ?case
    by (simp add: RemoveEdge_def diff_diff_add_mset [symmetric] del: mset_remove1)
qed

lemma mset_remove_added:
  "mset (removeEdges (addEdges g cid deps) cid deps) = mset g"
  by (simp add: mset_removeEdges addEdges_eq)

text \<open>
  Claim C3. When the edges that \<^verbatim>\<open>Lock\<close> adds for the conflicting holders close a
  cycle, the call fails with the deadlock error; the transactions (with their resource
  maps) and the lock manager are as before, and the graph holds the edges it held before
  the call, each as many times as before: every edge the call added has been removed.
\<close>

theorem Lock_deadlock_is_atomic:
  assumes "GetTransaction tm cid = Some t"
    and "map_of (resources t) (Resource tbl key) = None"
    and "DetectCycle (addEdges (pGraph tm) cid
           (discoverTransactions tm (Resource tbl key) lType))"
  shows "\<exists>tm'. Lock tm cid tbl key lType = Some (tm', Some DeadlockDetected)
           \<and> transactions tm' = transactions tm
           \<and> lm tm' = lm tm
           \<and> mset (pGraph tm') = mset (pGraph tm)"
  using assms by (simp add: Lock_def Let_def mset_remove_added)

theorem Lock_deadlock_is_atomic_witness:
  "\<exists>tm'. Lock \<lparr>lm = NewLockManager(Resource ''t'' 5 := Exclusive), pGraph = [(2, 1)],
                transactions =
                  [(1, \<lparr>clientId = 1, resources = []\<rparr>),
                   (2, \<lparr>clientId = 2, resources = [(Resource ''t'' 5, W_LOCK)]\<rparr>)]\<rparr>
            1 ''t'' 5 W_LOCK = Some (tm', Some DeadlockDetected)
      \<and> transactions tm' =
          [(1, \<lparr>clientId = 1, resources = []\<rparr>),
           (2, \<lparr>clientId = 2, resources = [(Resource ''t'' 5, W_LOCK)]\<rparr>)]
      \<and> lm tm' = NewLockManager(Resource ''t'' 5 := Exclusive)
      \<and> mset (pGraph tm') = {#(2, 1)#}"
proof -
  let ?tm = "\<lparr>lm = NewLockManager(Resource ''t'' 5 := Exclusive), pGraph = [(2, 1)],
              transactions =
                [(1, \<lparr>clientId = 1, resources = []\<rparr>),
                 (2, \<lparr>clientId = 2, resources = [(Resource ''t'' 5, W_LOCK)]\<rparr>)]\<rparr>"
  have found: "GetTransaction ?tm 1 = Some \<lparr>clientId = 1, resources = []\<rparr>"
    by (simp add: GetTransaction_def)
  have free: "map_of (resources \<lparr>clientId = 1, resources = []\<rparr>) (Resource ''t'' 5) = None"
    by simp
  have edges: "addEdges (pGraph ?tm) 1 (discoverTransactions ?tm (Resource ''t'' 5) W_LOCK)
                 = [(2, 1), (1, 2)]"
    by (simp add: addEdges_def discoverTransactions_def AddEdge_def)
  have "DetectCycle [(2, 1), (1, 2)]"
    unfolding DetectCycle_def by (auto intro: trancl.trancl_into_trancl)
  with edges have cyc:
    "DetectCycle (addEdges (pGraph ?tm) 1 (discoverTransactions ?tm (Resource ''t'' 5) W_LOCK))"
    by simp
  show ?thesis
    using Lock_deadlock_is_atomic [OF found free cyc] by simp
qed

section \<open>Properties of the recovery manager\<close>

lemma Redo_insert_on_table:
  assumes "rm_d rm tbl = Some tb"
  shows "Redo rm (editLog cid tbl INSERT_ACTION k oldv newv)
           = (rm\<lparr>rm_d := (rm_d rm)(tbl \<mapsto> tb(k \<mapsto> newv))\<rparr>, None)"
  using assms
  by (cases "tb k") (simp_all add: db_HandleInsert_def db_HandleUpdate_def)

lemma Redo_update_on_table:
  assumes "rm_d rm tbl = Some tb"
  shows "Redo rm (editLog cid tbl UPDATE_ACTION k oldv newv)
           = (rm\<lparr>rm_d := (rm_d rm)(tbl \<mapsto> tb(k \<mapsto> newv))\<rparr>, None)"
  using assms
  by (cases "tb k") (simp_all add: db_HandleInsert_def db_HandleUpdate_def)

lemma Redo_delete_on_table:
  assumes "rm_d rm tbl = Some tb"
  shows "Redo rm (editLog cid tbl DELETE_ACTION k oldv newv)
           = (case tb k of
                None \<Rightarrow> (rm, Some KeyNotFound)
              | Some v \<Rightarrow> (rm\<lparr>rm_d := (rm_d rm)(tbl \<mapsto> tb(k := None))\<rparr>, None))"
  using assms
  by (cases "tb k") (simp_all add: db_HandleDelete_def)

lemma Redo_no_table:
  assumes "rm_d rm tbl = None"
  shows "snd (Redo rm (editLog cid tbl a k oldv newv)) = Some TableNotFound"
  using assms
  by (cases a) (simp_all add: db_HandleInsert_def db_HandleUpdate_def db_HandleDelete_def)

lemma Redo_insert_falls_back:
  assumes "snd (db_HandleInsert (rm_d rm) tbl k newv) = Some e"
  shows "Redo rm (editLog cid tbl INSERT_ACTION k oldv newv)
           = (rm\<lparr>rm_d := fst (db_HandleUpdate (rm_d rm) tbl k newv)\<rparr>,
              snd (db_HandleUpdate (rm_d rm) tbl k newv))"
  using assms
  by (auto simp: db_HandleInsert_def db_HandleUpdate_def split: option.splits)

lemma Redo_update_falls_back:
  assumes "snd (db_HandleUpdate (rm_d rm) tbl k newv) = Some e"
  shows "Redo rm (editLog cid tbl UPDATE_ACTION k oldv newv)
           = (rm\<lparr>rm_d := fst (db_HandleInsert (rm_d rm) tbl k newv)\<rparr>,
              snd (db_HandleInsert (rm_d rm) tbl k newv))"
  using assms
  by (auto simp: db_HandleInsert_def db_HandleUpdate_def split: option.splits)

text \<open>
  Claim C5. \<^verbatim>\<open>Redo\<close> of an edit record follows the fallback chain: when the insert of
  an insert record fails, the result is that of the update of the same key to the new
  value; when the update of an update record fails, the result is that of the insert of
  the key with the new value; a delete record is the delete alone, with its error when
  the key is missing. So on an existing table the redo of an insert or update record
  always succeeds and stores the new value under the key, whatever was there before,
  and a \<^verbatim>\<open>Redo\<close> of an insert or update record that returns no error leaves the
  record's key mapped to the record's new value.
\<close>

theorem Redo_fallback_chain:
  "(\<forall>e. snd (db_HandleInsert (rm_d rm) tbl k newv) = Some e \<longrightarrow>
       Redo rm (editLog cid tbl INSERT_ACTION k oldv newv)
         = (rm\<lparr>rm_d := fst (db_HandleUpdate (rm_d rm) tbl k newv)\<rparr>,
            snd (db_HandleUpdate (rm_d rm) tbl k newv)))
   \<and> (\<forall>e. snd (db_HandleUpdate (rm_d rm) tbl k newv) = Some e \<longrightarrow>
       Redo rm (editLog cid tbl UPDATE_ACTION k oldv newv)
         = (rm\<lparr>rm_d := fst (db_HandleInsert (rm_d rm) tbl k newv)\<rparr>,
            snd (db_HandleInsert (rm_d rm) tbl k newv)))
   \<and> Redo rm (editLog cid tbl DELETE_ACTION k oldv newv)
         = (rm\<lparr>rm_d := fst (db_HandleDelete (rm_d rm) tbl k)\<rparr>,
            snd (db_HandleDelete (rm_d rm) tbl k))
   \<and> (\<forall>tb. rm_d rm tbl = Some tb \<longrightarrow>
         Redo rm (editLog cid tbl INSERT_ACTION k oldv newv)
           = (rm\<lparr>rm_d := (rm_d rm)(tbl \<mapsto> tb(k \<mapsto> newv))\<rparr>, None)
       \<and> Redo rm (editLog cid tbl UPDATE_ACTION k oldv newv)
           = (rm\<lparr>rm_d := (rm_d rm)(tbl \<mapsto> tb(k \<mapsto> newv))\<rparr>, None)
       \<and> Redo rm (editLog cid tbl DELETE_ACTION k oldv newv)
           = (case tb k of
                None \<Rightarrow> (rm, Some KeyNotFound)
              | Some v \<Rightarrow> (rm\<lparr>rm_d := (rm_d rm)(tbl \<mapsto> tb(k := None))\<rparr>, None)))
   \<and> (\<forall>a rm'. a \<noteq> DELETE_ACTION
         \<and> Redo rm (editLog cid tbl a k oldv newv) = (rm', None)
         \<longrightarrow> db_Find (rm_d rm') tbl k = Some newv)"
proof (intro conjI allI impI)
  fix e assume "snd (db_HandleInsert (rm_d rm) tbl k newv) = Some e"
  then show "Redo rm (editLog cid tbl INSERT_ACTION k oldv newv)
         = (rm\<lparr>rm_d := fst (db_HandleUpdate (rm_d rm) tbl k newv)\<rparr>,
            snd (db_HandleUpdate (rm_d rm) tbl k newv))"
    by (rule Redo_insert_falls_back)
next
  fix e assume "snd (db_HandleUpdate (rm_d rm) tbl k newv) = Some e"
  then show "Redo rm (editLog cid tbl UPDATE_ACTION k oldv newv)
         = (rm\<lparr>rm_d := fst (db_HandleInsert (rm_d rm) tbl k newv)\<rparr>,
            snd (db_HandleInsert (rm_d rm) tbl k newv))"
    by (rule Redo_update_falls_back)
next
  show "Redo rm (editLog cid tbl DELETE_ACTION k oldv newv)
         = (rm\<lparr>rm_d := fst (db_HandleDelete (rm_d rm) tbl k)\<rparr>,
            snd (db_HandleDelete (rm_d rm) tbl k))"
    by (auto split: prod.splits option.splits)
next
  fix tb assume "rm_d rm tbl = Some tb"
  then show "Redo rm (editLog cid tbl INSERT_ACTION k oldv newv)
           = (rm\<lparr>rm_d := (rm_d rm)(tbl \<mapsto> tb(k \<mapsto> newv))\<rparr>, None)"
    by (rule Redo_insert_on_table)
next
  fix tb assume "rm_d rm tbl = Some tb"
  then show "Redo rm (editLog cid tbl UPDATE_ACTION k oldv newv)
           = (rm\<lparr>rm_d := (rm_d rm)(tbl \<mapsto> tb(k \<mapsto> newv))\<rparr>, None)"
    by (rule Redo_update_on_table)
next
  fix tb assume "rm_d rm tbl = Some tb"
  then show "Redo rm (editLog cid tbl DELETE_ACTION k oldv newv)
           = (case tb k of
                None \<Rightarrow> (rm, Some KeyNotFound)
              | Some v \<Rightarrow> (rm\<lparr>rm_d := (rm_d rm)(tbl \<mapsto> tb(k := None))\<rparr>, None))"
    by (rule Redo_delete_on_table)
next
  fix a rm'
  assume h: "a \<noteq> DELETE_ACTION \<and> Redo rm (editLog cid tbl a k oldv newv) = (rm', None)"
  show "db_Find (rm_d rm') tbl k = Some newv"
  proof (cases "rm_d rm tbl")
    case None
    from Redo_no_table [OF None, of cid a k oldv newv] h show ?thesis by simp
  next
    case (Some tb)
    from h have "a = INSERT_ACTION \<or> a = UPDATE_ACTION" by (cases a) simp_all
    then have "Redo rm (editLog cid tbl a k oldv newv)
                 = (rm\<lparr>rm_d := (rm_d rm)(tbl \<mapsto> tb(k \<mapsto> newv))\<rparr>, None)"
      using Redo_insert_on_table [OF Some] Redo_update_on_table [OF Some] by auto
    with h have "rm' = rm\<lparr>rm_d := (rm_d rm)(tbl \<mapsto> tb(k \<mapsto> newv))\<rparr>" by simp
    then show ?thesis by (simp add: db_Find_def)
  qed
qed

theorem Redo_fallback_chain_witness:
  "Redo \<lparr>rm_d = [''t'' \<mapsto> [1 \<mapsto> 10]], rm_tm = NewTransactionManager NewLockManager,
          txStack = [], rm_fd = []\<rparr>
        (editLog 7 ''t'' INSERT_ACTION 1 0 100)
     = (\<lparr>rm_d = [''t'' \<mapsto> [1 \<mapsto> 100]], rm_tm = NewTransactionManager NewLockManager,
         txStack = [], rm_fd = []\<rparr>, None)
   \<and> snd (db_HandleInsert [''t'' \<mapsto> [1 \<mapsto> 10]] ''t'' 1 100) = Some KeyAlreadyExists
   \<and> db_Find [''t'' \<mapsto> [1 \<mapsto> 100]] ''t'' 1 = Some 100"
proof -
  let ?rm = "\<lparr>rm_d = [''t'' \<mapsto> [1 \<mapsto> (10::int)]],
              rm_tm = NewTransactionManager NewLockManager, txStack = [], rm_fd = []\<rparr>"
  have dup: "snd (db_HandleInsert (rm_d ?rm) ''t'' 1 100) = Some KeyAlreadyExists"
    by (simp add: db_HandleInsert_def)
  have "Redo ?rm (editLog 7 ''t'' INSERT_ACTION 1 0 100)
          = (?rm\<lparr>rm_d := fst (db_HandleUpdate (rm_d ?rm) ''t'' 1 100)\<rparr>,
             snd (db_HandleUpdate (rm_d ?rm) ''t'' 1 100))"
    using Redo_fallback_chain [of ?rm "''t''" 1 100 7 0] dup by blast
  moreover have "db_HandleUpdate (rm_d ?rm) ''t'' 1 100 = ([''t'' \<mapsto> [1 \<mapsto> 100]], None)"
    by (simp add: db_HandleUpdate_def)
  ultimately show ?thesis
    using dup by (simp add: db_Find_def)
qed

lemma inverseOf_Undo: "inverseOf rm l = Undo rm l"
  by (cases l) (simp_all split: Action.splits)

lemma editLogsOf_append: "editLogsOf (xs @ ys) = editLogsOf xs @ editLogsOf ys"
  by (induction xs rule: editLogsOf.induct) simp_all

lemma applyInverses_first:
  "applyInverses rm (editLogsOf [x] @ ls) =
     (case x of
        Some (editLog cid tbl act k oldv newv) \<Rightarrow>
          (case Undo rm (editLog cid tbl act k oldv newv) of
             None \<Rightarrow> None
           | Some (rm', Some e) \<Rightarrow> Some (rm', Some e)
           | Some (rm', None) \<Rightarrow> applyInverses rm' ls)
      | _ \<Rightarrow> applyInverses rm ls)"
  by (cases "[x]" rule: editLogsOf.cases) (simp_all add: inverseOf_Undo del: inverseOf.simps)

lemma rev_editLogsOf_single: "rev (editLogsOf [x]) = editLogsOf [x]"
  by (cases "[x]" rule: editLogsOf.cases) simp_all

lemma rollbackLoop_walks_back:
  "n < length logs \<Longrightarrow>
     rollbackLoop rm logs n = applyInverses rm (rev (editLogsOf (take n (tl logs))))"
proof (induction n arbitrary: rm)
  case 0
  then show ?case by simp
next
  case (Suc n)
  then have n: "n < length (tl logs)" by simp
  have nth: "logs ! Suc n = tl logs ! n"
    using Suc.prems by (cases logs) simp_all
  have "rev (editLogsOf (take (Suc n) (tl logs)))
          = editLogsOf [logs ! Suc n] @ rev (editLogsOf (take n (tl logs)))"
    by (simp add: take_Suc_conv_app_nth [OF n] editLogsOf_append nth rev_editLogsOf_single
             del: editLogsOf.simps)
  moreover have "\<And>rm'. rollbackLoop rm' logs n
                   = applyInverses rm' (rev (editLogsOf (take n (tl logs))))"
    using Suc by simp
  ultimately show ?case
    by (simp add: applyInverses_first del: editLogsOf.simps
             split: option.splits Log.splits)
qed

lemma Start_txStack:
  "map_of (txStack (Start rm cid)) cid = Some [None, Some (startLog cid)]"
  by (simp add: Start_def writeToBuffer_def Let_def update_conv)

lemma Edit_txStack:
  assumes "map_of (txStack rm) cid = Some (l0 # rest)"
  shows "map_of (txStack (Edit rm cid tbl act k oldv newv)) cid
           = Some (l0 # rest @ [Some (editLog cid tbl act k oldv newv)])"
  using assms by (simp add: Edit_def writeToBuffer_def Let_def update_conv)

text \<open>
  Claim C6, as stated: for every live transaction with a non-empty record stack,
  \<^verbatim>\<open>Rollback\<close> applies the inverse of each of the transaction's recorded edit logs.
  The loop of \<^verbatim>\<open>Rollback\<close> stops at index 1 and never reads index 0. A transaction
  that is begun in the transaction manager and inserts \<open>(1, 10)\<close> without a call of
  \<^verbatim>\<open>Start\<close> is live and has the stack of that one edit record (\<^verbatim>\<open>Edit\<close> appends to
  the stack it finds, here none); \<^verbatim>\<open>Rollback\<close> then undoes nothing and commits: key 1
  still holds 10, where the description deletes it.
\<close>

theorem Rollback_skips_first_record_counterexample:
  "(case rec_HandleInsert
           (tm_Begin_dropErr (NewRecoveryManager [''t'' \<mapsto> Map.empty] []) 7) 7 ''t'' 1 10 of
      None \<Rightarrow> False
    | Some (rmB, inserted) \<Rightarrow>
        inserted = None
        \<and> GetTransaction (rm_tm rmB) 7 \<noteq> None
        \<and> map_of (txStack rmB) 7 = Some [Some (editLog 7 ''t'' INSERT_ACTION 1 0 10)]
        \<and> db_Find (rm_d rmB) ''t'' 1 = Some 10
        \<and> (case Rollback rmB 7 of
             None \<Rightarrow> False
           | Some (rm', err) \<Rightarrow>
               err = None
               \<and> db_Find (rm_d rm') ''t'' 1 = Some 10
               \<and> rm_fd rm' = [editLog 7 ''t'' INSERT_ACTION 1 0 10, commitLog 7])
        \<and> (case Rollback_described rmB 7 of
             None \<Rightarrow> False
           | Some (rm', err) \<Rightarrow>
               err = None \<and> db_Find (rm_d rm') ''t'' 1 = None))"
  by (simp add: rec_HandleInsert_def rec_HandleDelete_def tm_Begin_dropErr_def
        NewRecoveryManager_def NewTransactionManager_def NewLockManager_def NewGraph_def
        Begin_def Lock_def GetTransaction_def discoverTransactions_def addEdges_def
        removeEdges_def DetectCycle_def Edit_def writeToBuffer_def Rollback_def
        Rollback_described_def walkAndCommit_def rm_Commit_def tm_Commit_dropErr_def
        Commit_def db_Find_def Let_def)

text \<open>
  Claim C6, amended. For every transaction with a record stack, \<^verbatim>\<open>Rollback\<close> walks
  the edit logs recorded at index 1 and above of that stack from the newest to the
  oldest, applies the inverse of each (delete the key of an insert, restore the old value
  of an update, insert the key of a delete with its old value), and then commits the
  transaction in the recovery manager (commit record, stack dropped) and in the
  transaction manager; an inverse that fails ends the rollback with its error, before
  any commit. The record at index 0 is never visited. So \<^verbatim>\<open>Rollback\<close> is the
  description over the whole stack whenever the stack does not begin with an edit log,
  as with every stack that \<^verbatim>\<open>Start\<close> created: \<^verbatim>\<open>Start\<close> leaves the nil interface
  at index 0 and the start record at index 1, and the edits follow
  (\<open>Start_txStack\<close>, \<open>Edit_txStack\<close>).
\<close>

theorem Rollback_walks_records_after_first:
  assumes "map_of (txStack rm) cid = Some stack"
  shows "Rollback rm cid = walkAndCommit rm cid (tl stack)
         \<and> (editLogsOf (take 1 stack) = [] \<longrightarrow> Rollback rm cid = Rollback_described rm cid)"
proof -
  have loop: "rollbackLoop rm stack (length stack - 1)
                = applyInverses rm (rev (editLogsOf (tl stack)))"
  proof (cases stack)
    case Nil
    then show ?thesis by simp
  next
    case (Cons l0 rest)
    then show ?thesis
      using rollbackLoop_walks_back [of "length rest" "l0 # rest" rm] by simp
  qed
  have first: "Rollback rm cid = walkAndCommit rm cid (tl stack)"
    using assms loop
    by (simp add: Rollback_def walkAndCommit_def tm_Commit_dropErr_def rm_Commit_def
          writeToBuffer_def Let_def split: option.splits prod.splits)
  have "editLogsOf stack = editLogsOf (tl stack)" if "editLogsOf (take 1 stack) = []"
  proof (cases stack)
    case Nil
    then show ?thesis by simp
  next
    case (Cons l0 rest)
    then show ?thesis
      using that editLogsOf_append [of "[l0]" rest] by simp
  qed
  then have "editLogsOf (take 1 stack) = [] \<longrightarrow> Rollback rm cid = Rollback_described rm cid"
    using first assms by (simp add: Rollback_described_def walkAndCommit_def)
  with first show ?thesis by simp
qed

theorem Rollback_walks_records_after_first_witness:
  "\<exists>rm'. Rollback
            \<lparr>rm_d = [''t'' \<mapsto> [1 \<mapsto> 100, 2 \<mapsto> 20]],
             rm_tm = \<lparr>lm = NewLockManager(Resource ''t'' 1 := Exclusive,
                                           Resource ''t'' 2 := Exclusive),
                      pGraph = [],
                      transactions = [(7, \<lparr>clientId = 7,
                         resources = [(Resource ''t'' 1, W_LOCK), (Resource ''t'' 2, W_LOCK)]\<rparr>)]\<rparr>,
             txStack = [(7, [None, Some (startLog 7),
                             Some (editLog 7 ''t'' INSERT_ACTION 1 0 10),
                             Some (editLog 7 ''t'' UPDATE_ACTION 2 200 20),
                             Some (editLog 7 ''t'' UPDATE_ACTION 1 10 100)])],
             rm_fd = []\<rparr> 7 = Some (rm', None)
      \<and> db_Find (rm_d rm') ''t'' 1 = None
      \<and> db_Find (rm_d rm') ''t'' 2 = Some 200
      \<and> txStack rm' = []
      \<and> transactions (rm_tm rm') = []
      \<and> rm_fd rm' = [editLog 7 ''t'' UPDATE_ACTION 1 100 10,
                      editLog 7 ''t'' UPDATE_ACTION 2 20 200,
                      editLog 7 ''t'' DELETE_ACTION 1 10 0,
                      commitLog 7]"
proof -
  let ?rm = "\<lparr>rm_d = [''t'' \<mapsto> [1 \<mapsto> 100, 2 \<mapsto> (20::int)]],
             rm_tm = \<lparr>lm = NewLockManager(Resource ''t'' 1 := Exclusive,
                                           Resource ''t'' 2 := Exclusive),
                      pGraph = [],
                      transactions = [(7, \<lparr>clientId = 7,
                         resources = [(Resource ''t'' 1, W_LOCK), (Resource ''t'' 2, W_LOCK)]\<rparr>)]\<rparr>,
             txStack = [(7, [None, Some (startLog 7),
                             Some (editLog 7 ''t'' INSERT_ACTION 1 0 10),
                             Some (editLog 7 ''t'' UPDATE_ACTION 2 200 20),
                             Some (editLog 7 ''t'' UPDATE_ACTION 1 10 100)])],
             rm_fd = []\<rparr>"
  have stack: "map_of (txStack ?rm) 7
                 = Some [None, Some (startLog 7),
                         Some (editLog 7 ''t'' INSERT_ACTION 1 0 10),
                         Some (editLog 7 ''t'' UPDATE_ACTION 2 200 20),
                         Some (editLog 7 ''t'' UPDATE_ACTION 1 10 100)]"
    by simp
  have "Rollback ?rm 7
          = walkAndCommit ?rm 7
              (tl [None, Some (startLog 7),
                   Some (editLog 7 ''t'' INSERT_ACTION 1 0 10),
                   Some (editLog 7 ''t'' UPDATE_ACTION 2 200 20),
                   Some (editLog 7 ''t'' UPDATE_ACTION 1 10 100)])"
    by (rule Rollback_walks_records_after_first [OF stack, THEN conjunct1])
  then show ?thesis
    by (simp add: walkAndCommit_def rec_HandleDelete_def
          rec_HandleUpdate_def Lock_def GetTransaction_def Edit_def writeToBuffer_def
          Commit_def NewLockManager_def db_Find_def Let_def)
qed

lemmas scenario_defs =
  crashAfterCheckpoint_def NewRecoveryManager_def Table_def Start_def Checkpoint_def
  rec_HandleInsert_def rec_HandleDelete_def db_HandleCreateTable_def db_HandleInsert_def
  db_HandleUpdate_def readLogs_checkpointPos_def Recover_def restart_def Prime_def
  tm_Begin_dropErr_def tm_Commit_dropErr_def Begin_def Commit_def rm_Commit_def
  writeToBuffer_def Edit_def NewTransactionManager_def NewLockManager_def NewGraph_def
  Lock_def GetTransaction_def discoverTransactions_def addEdges_def removeEdges_def
  DetectCycle_def db_Find_def Let_def

lemma crashAfterCheckpoint_leaves:
  "k1 \<noteq> k2 \<Longrightarrow>
     crashAfterCheckpoint T tbl k1 v1 k2 v2 =
       Some ([tableLog ''btree'' tbl, startLog T, editLog T tbl INSERT_ACTION k1 0 v1,
              checkpointLog [T], editLog T tbl INSERT_ACTION k2 0 v2],
             [tbl \<mapsto> [k1 \<mapsto> v1]])"
  by (simp add: scenario_defs)

lemma restart_undoes_both:
  "k1 \<noteq> k2 \<Longrightarrow>
     (case restart [tableLog ''btree'' tbl, startLog T, editLog T tbl INSERT_ACTION k1 0 v1,
                    checkpointLog [T], editLog T tbl INSERT_ACTION k2 0 v2]
             [tbl \<mapsto> [k1 \<mapsto> v1]] dbFolder of
        None \<Rightarrow> False
      | Some (rm, err) \<Rightarrow>
          err = None
          \<and> db_Find (rm_d rm) tbl k1 = None
          \<and> db_Find (rm_d rm) tbl k2 = None
          \<and> rm_fd rm =
              [tableLog ''btree'' tbl, startLog T, editLog T tbl INSERT_ACTION k1 0 v1,
               checkpointLog [T], editLog T tbl INSERT_ACTION k2 0 v2,
               editLog T tbl DELETE_ACTION k2 v2 0, editLog T tbl DELETE_ACTION k1 v1 0,
               commitLog T])"
  by (simp add: scenario_defs numeral_eq_Suc)

text \<open>
  Claim C1, as stated: after the crash of the process that ran begin \<open>T\<close>, insert
  \<open>(1, 100)\<close>, checkpoint, insert \<open>(2, 200)\<close>, recovery leaves \<open>find 1 = 100\<close>, and
  the undo pass leaves alone the edits of an active transaction that precede the last
  checkpoint. On the code the restart does not find key 1: the undo pass visits the whole
  log, and the log ends with the two compensating deletes, of key 2 and of key 1, and the
  commit of \<open>T\<close>.
\<close>

theorem Recover_keeps_checkpoint_edit_counterexample:
  "(case crashAfterCheckpoint 7 ''t'' 1 100 2 200 of
      None \<Rightarrow> False
    | Some (logFile, snapshot) \<Rightarrow>
        db_Find snapshot ''t'' 1 = Some 100
        \<and> (case restart logFile snapshot Map.empty of
             None \<Rightarrow> False
           | Some (rm, err) \<Rightarrow>
               db_Find (rm_d rm) ''t'' 1 \<noteq> Some 100
               \<and> editLog 7 ''t'' DELETE_ACTION 1 100 0 \<in> set (rm_fd rm)))"
proof -
  have ne: "(1::int) \<noteq> 2" by simp
  show ?thesis
    using restart_undoes_both [OF ne, of "''t''" 7 100 200 Map.empty]
    by (auto simp: crashAfterCheckpoint_leaves [OF ne] db_Find_def split: option.splits prod.splits)
qed

text \<open>
  Claim C1, amended. After the crash of the process that ran begin \<open>T\<close>, insert
  \<open>(k1, v1)\<close>, checkpoint, insert \<open>(k2, v2)\<close> with two different keys, the copy made
  by the checkpoint holds \<open>(k1, v1)\<close>; the restart restores that copy, redoes the insert
  that follows the checkpoint, and its undo pass, which walks the whole log from its end
  to its first record, undoes every edit of the still active \<open>T\<close>, the insert before
  the checkpoint included, and commits \<open>T\<close>. Afterwards find \<open>k1\<close> and find \<open>k2\<close>
  both report absence, whatever the database directory held at the crash.
\<close>

theorem Recover_undoes_all_edits_of_active:
  assumes "k1 \<noteq> k2"
  shows "case crashAfterCheckpoint T tbl k1 v1 k2 v2 of
           None \<Rightarrow> False
         | Some (logFile, snapshot) \<Rightarrow>
             db_Find snapshot tbl k1 = Some v1
             \<and> db_Find snapshot tbl k2 = None
             \<and> (case restart logFile snapshot dbFolder of
                  None \<Rightarrow> False
                | Some (rm, err) \<Rightarrow>
                    err = None
                    \<and> db_Find (rm_d rm) tbl k1 = None
                    \<and> db_Find (rm_d rm) tbl k2 = None
                    \<and> rm_fd rm = logFile @
                        [editLog T tbl DELETE_ACTION k2 v2 0,
                         editLog T tbl DELETE_ACTION k1 v1 0, commitLog T])"
  using restart_undoes_both [OF assms, of tbl T v1 v2 dbFolder] assms
  by (auto simp: crashAfterCheckpoint_leaves [OF assms] db_Find_def split: option.splits prod.splits)

theorem Recover_undoes_all_edits_of_active_witness:
  "case crashAfterCheckpoint 7 ''t'' 1 100 2 200 of
     None \<Rightarrow> False
   | Some (logFile, snapshot) \<Rightarrow>
       db_Find snapshot ''t'' 1 = Some 100
       \<and> db_Find snapshot ''t'' 2 = None
       \<and> (case restart logFile snapshot Map.empty of
            None \<Rightarrow> False
          | Some (rm, err) \<Rightarrow>
              err = None
              \<and> db_Find (rm_d rm) ''t'' 1 = None
              \<and> db_Find (rm_d rm) ''t'' 2 = None
              \<and> rm_fd rm = logFile @
                  [editLog 7 ''t'' DELETE_ACTION 2 200 0,
                   editLog 7 ''t'' DELETE_ACTION 1 100 0, commitLog 7])"
proof -
  have ne: "(1::int) \<noteq> 2" by simp
  show ?thesis
    by (rule Recover_undoes_all_edits_of_active [OF ne])
qed

section \<open>Properties of the B+-tree cursor\<close>

lemma StepForward_within:
  "\<not> cellnum c + 1 \<ge> numKeys (curNode c) \<Longrightarrow>
     StepForward (Suc fuel) tbl c = Some (c\<lparr>cellnum := cellnum c + 1\<rparr>, False)"
  by simp

lemma StepForward_lastPosition:
  "lastPosition tbl c \<Longrightarrow> StepForward (Suc fuel) tbl c = Some (c, True)"
  by (auto simp: lastPosition_def Let_def)

lemma StepForward_next:
  assumes "cellnum c + 1 \<ge> numKeys (curNode c)"
    and "\<not> rightSiblingPN (curNode c) < 0"
    and "GetPage tbl (rightSiblingPN (curNode c)) = Some nextNode"
  shows "StepForward (Suc fuel) tbl c =
           (if numKeys nextNode = 0
            then StepForward fuel tbl (c\<lparr>cellnum := 0, curNode := nextNode\<rparr>)
            else Some (c\<lparr>cellnum := 0, curNode := nextNode\<rparr>, False))"
  using assms by (simp add: Let_def)

lemma StepForward_induct_cases [consumes 1, case_names within last next_empty next_cell]:
  assumes "StepForward fuel tbl c = Some (c', b)"
    and within: "\<And>c. \<not> cellnum c + 1 \<ge> numKeys (curNode c) \<Longrightarrow>
                   P c (c\<lparr>cellnum := cellnum c + 1\<rparr>) False"
    and last: "\<And>c. lastPosition tbl c \<Longrightarrow> P c c True"
    and next_empty: "\<And>c nextNode c' b.
          cellnum c + 1 \<ge> numKeys (curNode c) \<Longrightarrow> \<not> rightSiblingPN (curNode c) < 0 \<Longrightarrow>
          GetPage tbl (rightSiblingPN (curNode c)) = Some nextNode \<Longrightarrow> numKeys nextNode = 0 \<Longrightarrow>
          P (c\<lparr>cellnum := 0, curNode := nextNode\<rparr>) c' b \<Longrightarrow> P c c' b"
    and next_cell: "\<And>c nextNode.
          cellnum c + 1 \<ge> numKeys (curNode c) \<Longrightarrow> \<not> rightSiblingPN (curNode c) < 0 \<Longrightarrow>
          GetPage tbl (rightSiblingPN (curNode c)) = Some nextNode \<Longrightarrow> numKeys nextNode \<noteq> 0 \<Longrightarrow>
          P c (c\<lparr>cellnum := 0, curNode := nextNode\<rparr>) False"
  shows "P c c' b"
  using assms(1)
proof (induction fuel arbitrary: c)
  case 0
  then show ?case by simp
next
  case (Suc fuel)
  show ?case
  proof (cases "cellnum c + 1 \<ge> numKeys (curNode c)")
    case False
    then show ?thesis
      using Suc.prems within [OF False] by (simp only: StepForward_within [OF False]) auto
  next
    case True
    show ?thesis
    proof (cases "rightSiblingPN (curNode c) < 0
                  \<or> GetPage tbl (rightSiblingPN (curNode c)) = None")
      case True
      with \<open>cellnum c + 1 \<ge> numKeys (curNode c)\<close> have lp: "lastPosition tbl c"
        by (simp add: lastPosition_def)
      show ?thesis
        using Suc.prems last [OF lp] by (simp only: StepForward_lastPosition [OF lp]) auto
    next
      case False
      then obtain nextNode where nn: "GetPage tbl (rightSiblingPN (curNode c)) = Some nextNode"
        and sib: "\<not> rightSiblingPN (curNode c) < 0"
        by auto
      note eq = StepForward_next [OF True sib nn, of fuel]
      show ?thesis
      proof (cases "numKeys nextNode = 0")
        case True
        then have "StepForward fuel tbl (c\<lparr>cellnum := 0, curNode := nextNode\<rparr>) = Some (c', b)"
          using Suc.prems eq by simp
        then have "P (c\<lparr>cellnum := 0, curNode := nextNode\<rparr>) c' b"
          by (rule Suc.IH)
        then show ?thesis
          by (rule next_empty [OF \<open>cellnum c + 1 \<ge> numKeys (curNode c)\<close> sib nn True])
      next
        case False
        then have "c' = c\<lparr>cellnum := 0, curNode := nextNode\<rparr>" "b = False"
          using Suc.prems eq by simp_all
        then show ?thesis
          using next_cell [OF \<open>cellnum c + 1 \<ge> numKeys (curNode c)\<close> sib nn False] by simp
      qed
    qed
  qed
qed

lemma StepForward_isEnd:
  "StepForward fuel tbl c = Some (c', b) \<Longrightarrow> isEnd c' = isEnd c"
  by (induction rule: StepForward_induct_cases) simp_all


lemma entriesFrom_next_cell:
  assumes "cell + 1 \<le> numKeys leaf"
  shows "set (entriesFrom n tbl leaf (cell + 1)) \<subseteq> set (entriesFrom n tbl leaf cell)"
proof -
  have "[cell..numKeys leaf - 1] = cell # [cell + 1..numKeys leaf - 1]"
    using assms by (intro upto_rec1) simp
  then have "set (map (getEntry leaf) [cell + 1..numKeys leaf - 1])
               \<subseteq> set (map (getEntry leaf) [cell..numKeys leaf - 1])"
    by auto
  then show ?thesis
    by (cases n) auto
qed

lemma atOrAfter_next_cell:
  assumes "cell + 1 \<le> numKeys leaf"
  shows "atOrAfter tbl leaf (cell + 1) \<subseteq> atOrAfter tbl leaf cell"
proof
  fix e assume "e \<in> atOrAfter tbl leaf (cell + 1)"
  then obtain n where "e \<in> set (entriesFrom n tbl leaf (cell + 1))"
    by (auto simp: atOrAfter_def)
  then have "e \<in> set (entriesFrom n tbl leaf cell)"
    using entriesFrom_next_cell [OF assms, of n tbl] by (rule rev_subsetD)
  then show "e \<in> atOrAfter tbl leaf cell"
    unfolding atOrAfter_def by (rule UN_I [OF UNIV_I])
qed

lemma atOrAfter_next_leaf:
  assumes "\<not> rightSiblingPN leaf < 0" "GetPage tbl (rightSiblingPN leaf) = Some nextNode"
  shows "atOrAfter tbl nextNode 0 \<subseteq> atOrAfter tbl leaf cell"
proof
  fix e assume "e \<in> atOrAfter tbl nextNode 0"
  then obtain n where "e \<in> set (entriesFrom n tbl nextNode 0)"
    by (auto simp: atOrAfter_def)
  then have "e \<in> set (entriesFrom (Suc n) tbl leaf cell)"
    using assms by simp
  then show "e \<in> atOrAfter tbl leaf cell"
    unfolding atOrAfter_def by (rule UN_I [OF UNIV_I])
qed

lemma atOrAfter_here:
  assumes "cell < numKeys leaf"
  shows "getEntry leaf cell \<in> atOrAfter tbl leaf cell"
proof -
  have "[cell..numKeys leaf - 1] = cell # [cell + 1..numKeys leaf - 1]"
    using assms by (intro upto_rec1) simp
  then have "getEntry leaf cell \<in> set (entriesFrom 0 tbl leaf cell)"
    by simp
  then show ?thesis unfolding atOrAfter_def by (rule UN_I [OF UNIV_I])
qed

lemma StepForward_position:
  assumes "StepForward fuel tbl c = Some (c', b)"
    and "\<forall>pn node. pager tbl pn = Some node \<longrightarrow> 0 \<le> numKeys node"
    and "0 \<le> cellnum c"
  shows "(onCell c' \<or> lastPosition tbl c') \<and> 0 \<le> cellnum c'
         \<and> atOrAfter tbl (curNode c') (cellnum c') \<subseteq> atOrAfter tbl (curNode c) (cellnum c)"
  using assms(1,3)
proof (induction rule: StepForward_induct_cases)
  case (within c)
  then have "atOrAfter tbl (curNode c) (cellnum c + 1) \<subseteq> atOrAfter tbl (curNode c) (cellnum c)"
    by (intro atOrAfter_next_cell) simp
  then show ?case using within by (simp add: onCell_def)
next
  case (last c)
  then show ?case by simp
next
  case (next_empty c nextNode c' b)
  have "atOrAfter tbl nextNode 0 \<subseteq> atOrAfter tbl (curNode c) (cellnum c)"
    by (rule atOrAfter_next_leaf [OF next_empty(2,3)])
  then show ?case using next_empty by auto
next
  case (next_cell c nextNode)
  have "atOrAfter tbl nextNode 0 \<subseteq> atOrAfter tbl (curNode c) (cellnum c)"
    by (rule atOrAfter_next_leaf [OF next_cell(2,3)])
  moreover have "0 \<le> numKeys nextNode"
    using next_cell(3) assms(2) by (simp add: GetPage_def)
  ultimately show ?case using next_cell by (simp add: onCell_def)
qed

lemma rangeLoop_stuck:
  assumes "lastPosition tbl c" "\<not> isEnd c" "fst (getEntry (curNode c) (cellnum c)) < endKey"
  shows "rangeLoop fuel tbl endKey c (getEntry (curNode c) (cellnum c)) entries = None"
  using assms
proof (induction fuel arbitrary: entries)
  case 0
  then show ?case by simp
next
  case (Suc fuel)
  have "StepForward (Suc fuel) tbl c = Some (c, True)"
    by (rule StepForward_lastPosition [OF Suc.prems(1)])
  moreover have "GetEntry c = Inr (getEntry (curNode c) (cellnum c))"
    using Suc.prems(2) by (simp add: GetEntry_def)
  ultimately show ?case
    using Suc by (simp add: IsEnd_def Let_def del: StepForward.simps)
qed

lemma rangeLoop_entries:
  assumes "rangeLoop fuel tbl endKey c e entries = Some (res, err)"
    and "\<forall>pn node. pager tbl pn = Some node \<longrightarrow> 0 \<le> numKeys node"
    and "0 \<le> cellnum c"
    and "onCell c \<or> lastPosition tbl c"
    and "\<not> isEnd c"
    and "e = getEntry (curNode c) (cellnum c)"
  shows "set res \<subseteq> set entries
           \<union> {e' \<in> atOrAfter tbl (curNode c) (cellnum c). fst e' < endKey}"
  using assms
proof (induction fuel arbitrary: c e entries)
  case 0
  then show ?case by simp
next
  case (Suc fuel)
  show ?case
  proof (cases "endKey > fst e \<and> \<not> IsEnd c")
    case False
    then have "res = entries"
      using Suc.prems(1) by (auto simp del: StepForward.simps)
    then show ?thesis by simp
  next
    case True
    then have lt: "fst e < endKey" by simp
    have notlast: "\<not> lastPosition tbl c"
    proof
      assume "lastPosition tbl c"
      then have "rangeLoop (Suc fuel) tbl endKey c e entries = None"
        using rangeLoop_stuck [of tbl c endKey "Suc fuel" entries] Suc.prems(5,6) lt by simp
      then show False using Suc.prems(1) by simp
    qed
    then have on: "onCell c" using Suc.prems(4) by simp
    then have here: "e \<in> atOrAfter tbl (curNode c) (cellnum c)"
      using Suc.prems(6) by (simp add: onCell_def atOrAfter_here)
    from Suc.prems(1) True obtain c' b where
      step: "StepForward (Suc fuel) tbl c = Some (c', b)"
      by (auto simp: Let_def simp del: StepForward.simps split: option.splits)
    have end': "\<not> isEnd c'"
      using StepForward_isEnd [OF step] Suc.prems(5) by simp
    then have get: "GetEntry c' = Inr (getEntry (curNode c') (cellnum c'))"
      by (simp add: GetEntry_def)
    have pos: "(onCell c' \<or> lastPosition tbl c') \<and> 0 \<le> cellnum c'
         \<and> atOrAfter tbl (curNode c') (cellnum c') \<subseteq> atOrAfter tbl (curNode c) (cellnum c)"
      by (rule StepForward_position [OF step Suc.prems(2,3)])
    have rec: "rangeLoop fuel tbl endKey c' (getEntry (curNode c') (cellnum c')) (entries @ [e])
                 = Some (res, err)"
      using Suc.prems(1) True step get by (simp add: Let_def del: StepForward.simps)
    have "set res \<subseteq> set (entries @ [e])
           \<union> {e' \<in> atOrAfter tbl (curNode c') (cellnum c'). fst e' < endKey}"
      using Suc.IH [OF rec Suc.prems(2) _ _ end' refl] pos by simp
    then show ?thesis
      using here lt pos by auto
  qed
qed


lemma entriesFrom_first:
  assumes "cell < numKeys leaf"
  shows "\<exists>rest. entriesFrom n tbl leaf cell = getEntry leaf cell # rest"
proof -
  have "[cell..numKeys leaf - 1] = cell # [cell + 1..numKeys leaf - 1]"
    using assms by (intro upto_rec1) simp
  then show ?thesis by (cases n) simp_all
qed

lemma entriesFrom_split:
  assumes "0 \<le> cell" "cell < numKeys leaf"
  shows "\<exists>pre. entriesFrom n tbl leaf 0 = pre @ entriesFrom n tbl leaf cell"
proof -
  have "[0..numKeys leaf - 1] = [0..cell - 1] @ [cell..numKeys leaf - 1]"
    using assms by (intro upto_split1) simp_all
  then show ?thesis by (cases n) simp_all
qed

lemma atOrAfter_sorted_lower_bound:
  assumes "0 \<le> cell" "cell < numKeys leaf"
    and "startKey \<le> fst (getEntry leaf cell)"
    and "\<forall>n. sorted (map fst (entriesFrom n tbl leaf 0))"
    and "e \<in> atOrAfter tbl leaf cell"
  shows "startKey \<le> fst e"
proof -
  from assms(5) obtain n where n: "e \<in> set (entriesFrom n tbl leaf cell)"
    by (auto simp: atOrAfter_def)
  obtain pre where pre: "entriesFrom n tbl leaf 0 = pre @ entriesFrom n tbl leaf cell"
    using entriesFrom_split [OF assms(1,2)] by blast
  obtain rest where rest: "entriesFrom n tbl leaf cell = getEntry leaf cell # rest"
    using entriesFrom_first [OF assms(2)] by blast
  have "sorted (map fst (pre @ getEntry leaf cell # rest))"
    using assms(4) pre rest by metis
  then have "\<forall>x \<in> set rest. fst (getEntry leaf cell) \<le> fst x"
    by (simp add: sorted_append)
  then have "fst (getEntry leaf cell) \<le> fst e"
    using n rest by auto
  then show ?thesis using assms(3) by simp
qed

text \<open>
  What \<^verbatim>\<open>TableFindRange\<close> returns when it returns. For a tree whose pages have
  non-negative key counts, whose leaf chain from the leaf that \<^verbatim>\<open>TableFind\<close> reaches is
  in increasing key order, and where \<^verbatim>\<open>TableFind(startKey)\<close> points at a cell number
  between 0 and \<^verbatim>\<open>numKeys\<close> whose entry, if there is one, has a key of at least
  \<open>startKey\<close>: every entry of a returned list has a key of at least \<open>startKey\<close> and
  strictly less than \<open>endKey\<close>.
\<close>

lemma TableFindRange_returned_in_range:
  assumes "TableFindRange descend fuel tbl startKey endKey = Some (entries, err)"
    and "\<forall>pn node. pager tbl pn = Some node \<longrightarrow> 0 \<le> numKeys node"
    and "\<forall>leaf cell. descend startKey = Inr (leaf, cell) \<longrightarrow>
           0 \<le> cell \<and> cell \<le> numKeys leaf
           \<and> (cell < numKeys leaf \<longrightarrow> startKey \<le> fst (getEntry leaf cell))
           \<and> (\<forall>n. sorted (map fst (entriesFrom n tbl leaf 0)))"
  shows "\<forall>e \<in> set entries. startKey \<le> fst e \<and> fst e < endKey"
proof (cases "descend startKey")
  case (Inl e)
  then have "entries = []"
    using assms(1) by (simp add: TableFindRange_def TableFind_def)
  then show ?thesis by simp
next
  case (Inr found)
  obtain leaf cell where found: "found = (leaf, cell)" by (cases found)
  let ?c = "\<lparr>cellnum = cell, isEnd = (cell = numKeys leaf), curNode = leaf\<rparr>"
  have cur: "TableFind descend startKey = Inr ?c"
    using Inr found by (simp add: TableFind_def)
  have contract: "0 \<le> cell" "cell \<le> numKeys leaf"
    "cell < numKeys leaf \<longrightarrow> startKey \<le> fst (getEntry leaf cell)"
    "\<forall>n. sorted (map fst (entriesFrom n tbl leaf 0))"
    using assms(3) Inr found by simp_all
  show ?thesis
  proof (cases "cell = numKeys leaf")
    case True
    then have "entries = []"
      using assms(1) cur by (simp add: TableFindRange_def GetEntry_def)
    then show ?thesis by simp
  next
    case False
    then have lt: "cell < numKeys leaf" using contract(2) by simp
    have loop: "rangeLoop fuel tbl endKey ?c (getEntry leaf cell) [] = Some (entries, err)"
      using assms(1) cur False by (simp add: TableFindRange_def GetEntry_def)
    have "set entries \<subseteq> set []
            \<union> {e' \<in> atOrAfter tbl (curNode ?c) (cellnum ?c). fst e' < endKey}"
      by (rule rangeLoop_entries [OF loop assms(2)])
         (use contract(1) lt False in \<open>simp_all add: onCell_def\<close>)
    then have sub: "set entries \<subseteq> {e' \<in> atOrAfter tbl leaf cell. fst e' < endKey}"
      by simp
    show ?thesis
    proof
      fix e assume "e \<in> set entries"
      then have e: "e \<in> atOrAfter tbl leaf cell" "fst e < endKey"
        using sub by auto
      have "startKey \<le> fst e"
        using atOrAfter_sorted_lower_bound [OF contract(1) lt _ contract(4) e(1)] contract(3) lt
        by simp
      then show "startKey \<le> fst e \<and> fst e < endKey" using e(2) by simp
    qed
  qed
qed

lemma TableFindRange_returns_when_a_key_reaches_endKey:
  "TableFindRange
     (\<lambda>k. Inr (\<lparr>numKeys = 2, rightSiblingPN = 1,
                  getEntry = (\<lambda>i. if i = 0 then (1, 10) else (2, 20))\<rparr>, 0))
     3
     \<lparr>pager = [0 \<mapsto> \<lparr>numKeys = 2, rightSiblingPN = 1,
                        getEntry = (\<lambda>i. if i = 0 then (1, 10) else (2, 20))\<rparr>,
               1 \<mapsto> \<lparr>numKeys = 1, rightSiblingPN = - 1, getEntry = (\<lambda>i. (7, 70))\<rparr>],
      rootPN = 0\<rparr>
     1 5
   = Some ([(1, 10), (2, 20)], None)
   \<and> list_all (\<lambda>e. (1::int) \<le> fst e \<and> fst e < 5) [(1, 10), (2, 20 :: int)]"
proof -
  let ?leaf1 = "\<lparr>numKeys = 1, rightSiblingPN = - 1, getEntry = (\<lambda>i. (7, 70 :: int))\<rparr>"
  let ?leaf0 = "\<lparr>numKeys = 2, rightSiblingPN = 1,
                 getEntry = (\<lambda>i. if i = 0 then (1, 10 :: int) else (2, 20))\<rparr>"
  let ?tbl = "\<lparr>pager = [0 \<mapsto> ?leaf0, 1 \<mapsto> ?leaf1], rootPN = 0\<rparr>"
  let ?descend = "\<lambda>k :: int. (Inr (?leaf0, 0) :: error + (LeafNode \<times> int))"
  have ret: "TableFindRange ?descend 3 ?tbl 1 5 = Some ([(1, 10), (2, 20)], None)"
    by (simp add: TableFindRange_def TableFind_def GetEntry_def IsEnd_def GetPage_def Let_def
          numeral_eq_Suc)
  have pages: "\<forall>pn node. pager ?tbl pn = Some node \<longrightarrow> 0 \<le> numKeys node"
    by (auto split: if_splits)
  have sorted_chain: "sorted (map fst (entriesFrom n ?tbl ?leaf0 0))" for n
    by (cases n; cases "n - 1") (simp_all add: GetPage_def upto.simps)
  have found: "\<forall>leaf cell. ?descend 1 = Inr (leaf, cell) \<longrightarrow>
           0 \<le> cell \<and> cell \<le> numKeys leaf
           \<and> (cell < numKeys leaf \<longrightarrow> 1 \<le> fst (getEntry leaf cell))
           \<and> (\<forall>n. sorted (map fst (entriesFrom n ?tbl leaf 0)))"
    using sorted_chain by auto
  have "\<forall>e \<in> set [(1, 10), (2, 20 :: int)]. (1::int) \<le> fst e \<and> fst e < 5"
    by (rule TableFindRange_returned_in_range [OF ret pages found])
  then show ?thesis
    using ret by simp
qed

text \<open>
  Claim C9 has \<^verbatim>\<open>TableFindRange(startKey, endKey)\<close> return, for every tree and all
  bounds, the list of the entries with \<open>startKey \<le> key < endKey\<close>. On the tree of a
  single leaf with the single entry \<open>(7, 70)\<close> and no right sibling,
  \<^verbatim>\<open>TableFindRange(7, 8)\<close> should return that entry. It returns nothing: the loop
  appends the entry, \<^verbatim>\<open>StepForward\<close> leaves the cursor on the same cell with
  \<^verbatim>\<open>isEnd\<close> still false, \<^verbatim>\<open>GetEntry\<close> returns the same entry, and the loop
  condition holds again, for ever. No amount of fuel lets the call return.
\<close>

theorem TableFindRange_never_returns:
  "\<forall>fuel. TableFindRange
            (\<lambda>k. Inr (\<lparr>numKeys = 1, rightSiblingPN = - 1, getEntry = (\<lambda>i. (7, 70))\<rparr>, 0))
            fuel
            \<lparr>pager = [0 \<mapsto> \<lparr>numKeys = 1, rightSiblingPN = - 1,
                               getEntry = (\<lambda>i. (7, 70))\<rparr>],
             rootPN = 0\<rparr>
            7 8
          = None"
proof
  fix fuel
  let ?leaf = "\<lparr>numKeys = 1, rightSiblingPN = - 1, getEntry = (\<lambda>i. (7, 70 :: int))\<rparr>"
  let ?tbl = "\<lparr>pager = [0 \<mapsto> ?leaf], rootPN = 0\<rparr>"
  let ?c = "\<lparr>cellnum = 0, isEnd = False, curNode = ?leaf\<rparr>"
  have last: "lastPosition ?tbl ?c"
    by (simp add: lastPosition_def)
  have "rangeLoop fuel ?tbl 8 ?c (getEntry (curNode ?c) (cellnum ?c)) [] = None"
    by (rule rangeLoop_stuck [OF last]) simp_all
  then show "TableFindRange (\<lambda>k. Inr (?leaf, 0)) fuel ?tbl 7 8 = None"
    by (simp add: TableFindRange_def TableFind_def GetEntry_def)
qed

text \<open>
  Claim C4 says that \<^verbatim>\<open>GetEntry\<close> returns an error once \<^verbatim>\<open>StepForward\<close> has stepped
  past the rightmost leaf. \<^verbatim>\<open>StepForward\<close> never writes \<^verbatim>\<open>isEnd\<close>
  (\<open>StepForward_isEnd\<close>), the one field that \<^verbatim>\<open>GetEntry\<close> looks at. On the tree of a
  single leaf with the single entry \<open>(7, 70)\<close> and no right sibling, the cursor that
  \<^verbatim>\<open>TableStart\<close> returns (cell 0, not at the end) is told by \<^verbatim>\<open>StepForward\<close> that it
  is at the end of the tree, stays where it is, and \<^verbatim>\<open>GetEntry\<close> then returns the
  entry \<open>(7, 70)\<close> again, with no error.
\<close>

theorem StepForward_past_end_GetEntry_no_error:
  "StepForward 1
     \<lparr>pager = [0 \<mapsto> \<lparr>numKeys = 1, rightSiblingPN = - 1, getEntry = (\<lambda>i. (7, 70))\<rparr>],
      rootPN = 0\<rparr>
     \<lparr>cellnum = 0, isEnd = False,
      curNode = \<lparr>numKeys = 1, rightSiblingPN = - 1, getEntry = (\<lambda>i. (7, 70))\<rparr>\<rparr>
   = Some (\<lparr>cellnum = 0, isEnd = False,
            curNode = \<lparr>numKeys = 1, rightSiblingPN = - 1, getEntry = (\<lambda>i. (7, 70))\<rparr>\<rparr>,
           True)
   \<and> GetEntry \<lparr>cellnum = 0, isEnd = False,
               curNode = \<lparr>numKeys = 1, rightSiblingPN = - 1, getEntry = (\<lambda>i. (7, 70))\<rparr>\<rparr>
      = Inr (7, 70)"
  by (simp add: GetEntry_def)

section \<open>Properties of the join\<close>

lemma equaliseDepths_left_small:
  "depth l \<le> depth r \<Longrightarrow>
     snd (equaliseDepths l r) = r \<and> depth (fst (equaliseDepths l r)) = depth r
     \<and> (length (buckets l) = 2 ^ nat (depth l) \<longrightarrow> 0 \<le> depth l \<longrightarrow>
          length (buckets (fst (equaliseDepths l r))) = 2 ^ nat (depth r))"
proof (induction l r rule: equaliseDepths.induct)
  case (1 l r)
  show ?case
  proof (cases "depth l = depth r")
    case True
    then show ?thesis by (subst (1 2 3) equaliseDepths.simps) (simp add: GetDepth_def)
  next
    case False
    then have lt: "depth l < depth r" using "1.prems" by simp
    have step: "equaliseDepths l r = equaliseDepths (ExtendTable l) r"
      using False lt by (subst equaliseDepths.simps) (simp add: GetDepth_def)
    have "depth (ExtendTable l) \<le> depth r"
      using lt by (simp add: ExtendTable_def)
    then have IH: "snd (equaliseDepths (ExtendTable l) r) = r \<and>
        depth (fst (equaliseDepths (ExtendTable l) r)) = depth r \<and>
        (length (buckets (ExtendTable l)) = 2 ^ nat (depth (ExtendTable l)) \<longrightarrow>
         0 \<le> depth (ExtendTable l) \<longrightarrow>
         length (buckets (fst (equaliseDepths (ExtendTable l) r))) = 2 ^ nat (depth r))"
      using "1.IH"(1) False lt by (simp add: GetDepth_def)
    have "length (buckets l) = 2 ^ nat (depth l) \<Longrightarrow> 0 \<le> depth l \<Longrightarrow>
            length (buckets (ExtendTable l)) = 2 ^ nat (depth (ExtendTable l))"
      by (simp add: ExtendTable_def nat_add_distrib)
    then show ?thesis
      using IH step by (auto simp: ExtendTable_def)
  qed
qed


lemma equaliseDepths_right_small:
  "depth r \<le> depth l \<Longrightarrow>
     fst (equaliseDepths l r) = l \<and> depth (snd (equaliseDepths l r)) = depth l
     \<and> (length (buckets r) = 2 ^ nat (depth r) \<longrightarrow> 0 \<le> depth r \<longrightarrow>
          length (buckets (snd (equaliseDepths l r))) = 2 ^ nat (depth l))"
proof (induction l r rule: equaliseDepths.induct)
  case (1 l r)
  show ?case
  proof (cases "depth l = depth r")
    case True
    then show ?thesis by (subst (1 2 3) equaliseDepths.simps) (simp add: GetDepth_def)
  next
    case False
    then have lt: "depth r < depth l" using "1.prems" by simp
    have step: "equaliseDepths l r = equaliseDepths l (ExtendTable r)"
      using False lt by (subst equaliseDepths.simps) (simp add: GetDepth_def)
    have "depth (ExtendTable r) \<le> depth l"
      using lt by (simp add: ExtendTable_def)
    then have IH: "fst (equaliseDepths l (ExtendTable r)) = l \<and>
        depth (snd (equaliseDepths l (ExtendTable r))) = depth l \<and>
        (length (buckets (ExtendTable r)) = 2 ^ nat (depth (ExtendTable r)) \<longrightarrow>
         0 \<le> depth (ExtendTable r) \<longrightarrow>
         length (buckets (snd (equaliseDepths l (ExtendTable r)))) = 2 ^ nat (depth l))"
      using "1.IH"(2) False lt by (simp add: GetDepth_def)
    have "length (buckets r) = 2 ^ nat (depth r) \<Longrightarrow> 0 \<le> depth r \<Longrightarrow>
            length (buckets (ExtendTable r)) = 2 ^ nat (depth (ExtendTable r))"
      by (simp add: ExtendTable_def nat_add_distrib)
    then show ?thesis
      using IH step by (auto simp: ExtendTable_def)
  qed
qed

lemma probeLoop_pairs:
  assumes "probeLoop leftHas rightHas rb lbs i seen probed = (res, err)"
    and "distinct probed" and "set probed \<subseteq> set seen" and "i \<le> length rb"
  shows "distinct res \<and> set probed \<subseteq> set res
         \<and> set res \<subseteq> set probed \<union> set (zip lbs (drop i rb))
         \<and> (err = None \<longrightarrow> set (zip lbs (drop i rb)) \<subseteq> set seen \<union> set res
                           \<and> length lbs + i \<le> length rb)"
  using assms
proof (induction lbs arbitrary: i seen probed)
  case Nil
  then show ?case by simp
next
  case (Cons lBucketPN rest)
  show ?case
  proof (cases "i \<ge> length rb")
    case True
    then have "res = probed" "err = Some IndexOutOfRange"
      using Cons.prems(1) by simp_all
    then show ?thesis using Cons.prems(2) by simp
  next
    case False
    then have i: "i < length rb" by simp
    let ?pair = "(lBucketPN, rb ! i)"
    have zip: "zip (lBucketPN # rest) (drop i rb) = ?pair # zip rest (drop (Suc i) rb)"
      using i by (simp add: Cons_nth_drop_Suc [symmetric])
    show ?thesis
    proof (cases "?pair \<in> set seen")
      case True
      then have "probeLoop leftHas rightHas rb rest (Suc i) seen probed = (res, err)"
        using Cons.prems(1) i by (simp add: Let_def)
      from Cons.IH [OF this Cons.prems(2,3)] True i show ?thesis
        unfolding zip by auto
    next
      case False
      note unseen = False
      show ?thesis
      proof (cases "leftHas lBucketPN \<and> rightHas (rb ! i)")
        case False
        then have "res = probed" "err = Some PageNotFound"
          using Cons.prems(1) i unseen by (auto simp: Let_def split: if_splits)
        then show ?thesis using Cons.prems(2) by simp
      next
        case True
        then have rec: "probeLoop leftHas rightHas rb rest (Suc i) (?pair # seen) (probed @ [?pair])
                     = (res, err)"
          using Cons.prems(1) i unseen by (simp add: Let_def)
        have d: "distinct (probed @ [?pair])"
          using Cons.prems(2,3) unseen by auto
        have s: "set (probed @ [?pair]) \<subseteq> set (?pair # seen)"
          using Cons.prems(3) by auto
        from Cons.IH [OF rec d s] i show ?thesis
          unfolding zip by auto
      qed
    qed
  qed
qed

lemma probeLoop_no_panic:
  "length lbs + i \<le> length rb \<Longrightarrow>
     snd (probeLoop leftHas rightHas rb lbs i seen probed) \<noteq> Some IndexOutOfRange"
  by (induction lbs arbitrary: i seen probed) (auto simp: Let_def)

text \<open>
  Claim C7. After the equalisation loop of \<^verbatim>\<open>Join\<close> the two hash tables have the same
  global depth; a table whose depth was not the smaller one is returned as it was (only
  the side with the smaller depth is extended). The probe loop hands each pair of bucket
  page numbers to a probe at most once, every pair it probes is the pair of the left and
  the right bucket of one directory slot, and when the loop ends without an error the
  pairs probed are exactly the pairs of equal-indexed slots. For directories of
  \<open>2 ^ depth\<close> slots the two directories end up equally long, so every left slot has
  its right slot.
\<close>

theorem Join_equal_depth_pairwise:
  assumes "Join leftHas rightHas leftHashTable rightHashTable = (l, r, probed, err)"
  shows "GetDepth l = GetDepth r
         \<and> (GetDepth leftHashTable \<le> GetDepth rightHashTable \<longrightarrow> r = rightHashTable)
         \<and> (GetDepth rightHashTable \<le> GetDepth leftHashTable \<longrightarrow> l = leftHashTable)
         \<and> distinct probed
         \<and> set probed \<subseteq> set (zip (GetBuckets l) (GetBuckets r))
         \<and> (err = None \<longrightarrow> set probed = set (zip (GetBuckets l) (GetBuckets r))
                             \<and> length (GetBuckets l) \<le> length (GetBuckets r))
         \<and> (0 \<le> GetDepth leftHashTable \<and> 0 \<le> GetDepth rightHashTable
            \<and> length (GetBuckets leftHashTable) = 2 ^ nat (GetDepth leftHashTable)
            \<and> length (GetBuckets rightHashTable) = 2 ^ nat (GetDepth rightHashTable)
            \<longrightarrow> length (GetBuckets l) = length (GetBuckets r) \<and> err \<noteq> Some IndexOutOfRange)"
proof -
  obtain l' r' where eq: "equaliseDepths leftHashTable rightHashTable = (l', r')"
    by (cases "equaliseDepths leftHashTable rightHashTable")
  then have lr: "l = l'" "r = r'"
    and loop: "probeLoop leftHas rightHas (buckets r') (buckets l') 0 [] [] = (probed, err)"
    using assms by (auto simp: Join_def GetBuckets_def split: prod.splits)
  have depths: "depth l' = depth r'
      \<and> (depth leftHashTable \<le> depth rightHashTable \<longrightarrow> r' = rightHashTable)
      \<and> (depth rightHashTable \<le> depth leftHashTable \<longrightarrow> l' = leftHashTable)
      \<and> (0 \<le> depth leftHashTable \<and> 0 \<le> depth rightHashTable
            \<and> length (buckets leftHashTable) = 2 ^ nat (depth leftHashTable)
            \<and> length (buckets rightHashTable) = 2 ^ nat (depth rightHashTable)
            \<longrightarrow> length (buckets l') = length (buckets r'))"
  proof (cases "depth leftHashTable \<le> depth rightHashTable")
    case True
    show ?thesis
      using equaliseDepths_left_small [OF True] eq
        equaliseDepths_right_small [of rightHashTable leftHashTable]
      by auto
  next
    case False
    then have le: "depth rightHashTable \<le> depth leftHashTable" by simp
    show ?thesis
      using equaliseDepths_right_small [OF le] eq False by auto
  qed
  have pairs: "distinct probed \<and> set [] \<subseteq> set probed
         \<and> set probed \<subseteq> set [] \<union> set (zip (buckets l') (drop 0 (buckets r')))
         \<and> (err = None \<longrightarrow> set (zip (buckets l') (drop 0 (buckets r'))) \<subseteq> set [] \<union> set probed
                           \<and> length (buckets l') + 0 \<le> length (buckets r'))"
    by (rule probeLoop_pairs [OF loop]) simp_all
  have nopanic: "length (buckets l') \<le> length (buckets r') \<Longrightarrow> err \<noteq> Some IndexOutOfRange"
    using probeLoop_no_panic [of "buckets l'" 0 "buckets r'" leftHas rightHas "[]" "[]"] loop
    by simp
  show ?thesis
    using depths pairs nopanic by (auto simp: lr GetDepth_def GetBuckets_def)
qed


theorem Join_equal_depth_pairwise_witness:
  "Join (\<lambda>pn. True) (\<lambda>pn. True) \<lparr>depth = 1, buckets = [10, 11]\<rparr>
        \<lparr>depth = 3, buckets = [20, 21, 20, 23, 20, 21, 20, 27]\<rparr>
   = (\<lparr>depth = 3, buckets = [10, 11, 10, 11, 10, 11, 10, 11]\<rparr>,
      \<lparr>depth = 3, buckets = [20, 21, 20, 23, 20, 21, 20, 27]\<rparr>,
      [(10, 20), (11, 21), (11, 23), (11, 27)], None)
   \<and> GetDepth \<lparr>depth = 3, buckets = [10, 11, 10, 11, 10, 11, 10, 11]\<rparr>
       = GetDepth \<lparr>depth = 3, buckets = [20, 21, 20, 23, 20, 21, 20, 27]\<rparr>
   \<and> distinct ([(10, 20), (11, 21), (11, 23), (11, 27)] :: (int \<times> int) list)
   \<and> set [(10, 20), (11, 21), (11, 23), (11, 27)]
       = set (zip (GetBuckets \<lparr>depth = 3, buckets = [10, 11, 10, 11, 10, 11, 10, 11]\<rparr>)
                  (GetBuckets \<lparr>depth = 3, buckets = [20, 21, 20, 23, 20, 21, 20, 27]\<rparr>))"
proof -
  have ret: "Join (\<lambda>pn. True) (\<lambda>pn. True) \<lparr>depth = 1, buckets = [10, 11]\<rparr>
        \<lparr>depth = 3, buckets = [20, 21, 20, 23, 20, 21, 20, 27]\<rparr>
   = (\<lparr>depth = 3, buckets = [10, 11, 10, 11, 10, 11, 10, 11]\<rparr>,
      \<lparr>depth = 3, buckets = [20, 21, 20, 23, 20, 21, 20, 27]\<rparr>,
      [(10, 20), (11, 21), (11, 23), (11, 27)], None)"
    by (simp add: Join_def equaliseDepths.simps GetDepth_def GetBuckets_def ExtendTable_def
          Let_def)
  note th = Join_equal_depth_pairwise [OF ret]
  have a: "GetDepth \<lparr>depth = 3, buckets = [10, 11, 10, 11, 10, 11, 10, 11]\<rparr>
       = GetDepth \<lparr>depth = 3, buckets = [20, 21, 20, 23, 20, 21, 20, 27]\<rparr>"
    by (rule th [THEN conjunct1])
  have b: "distinct ([(10, 20), (11, 21), (11, 23), (11, 27)] :: (int \<times> int) list)"
    by (rule th [THEN conjunct2, THEN conjunct2, THEN conjunct2, THEN conjunct1])
  have c: "set [(10, 20), (11, 21), (11, 23), (11, 27)]
       = set (zip (GetBuckets \<lparr>depth = 3, buckets = [10, 11, 10, 11, 10, 11, 10, 11]\<rparr>)
                  (GetBuckets \<lparr>depth = 3, buckets = [20, 21, 20, 23, 20, 21, 20, 27]\<rparr>))"
    by (rule th [THEN conjunct2, THEN conjunct2, THEN conjunct2, THEN conjunct2,
                 THEN conjunct2, THEN conjunct1, THEN mp, OF refl, THEN conjunct1])
  show ?thesis
    by (intro conjI ret a b c)
qed

end
